theory Spec2Isabelle
  imports Main "HOL-Library.Word" "HOL-Library.Finite_Map"
begin

section \<open>The object model and the virtual machine of main.c\<close>

text \<open>
  An \<open>Object*\<close> is an optional address: \<open>None\<close> is the C \<open>NULL\<close>. The C heap that
  \<open>malloc\<close> and \<open>free\<close> manage is a finite map from addresses to \<open>Object\<close> cells; an
  address outside its domain is unallocated, and dereferencing \<open>NULL\<close> or an unallocated
  address (undefined behaviour in C, a segmentation fault of the process) is the error
  \<open>MemFault\<close>.
\<close>

type_synonym addr = nat
type_synonym ptr = "addr option"

datatype ObjectType = OBJ_INT | OBJ_PAIR

text \<open>
  \<open>struct sObject\<close>. The C union overlays \<open>value\<close> with \<open>head\<close> and \<open>tail\<close>; no
  function reads \<open>value\<close>, and \<open>head\<close> and \<open>tail\<close> are read only on \<open>OBJ_PAIR\<close> objects, so
  the overlay is not observable and the three are separate fields here.
\<close>

record Object =
  "next" :: ptr
  marked :: "8 word"
  type :: ObjectType
  "value" :: "32 word"
  head :: ptr
  tail :: ptr

type_synonym heap = "(addr, Object) fmap"

text \<open>
  \<open>struct VM\<close>, together with the heap its pointers lead into and the text that the
  functions below have written to the standard output of the process (\<open>newObject\<close>
  prints a line when it collects). The C \<open>int\<close> counters
  \<open>numObjects\<close> and \<open>maxObjects\<close> are 32-bit words (two's complement, as compiled; the
  code applies \<open>==\<close>, \<open>++\<close>, \<open>--\<close> and \<open>* 2\<close> to them, none of which depends on the sign).
  \<open>stackSize\<close> is a natural number: \<open>push\<close> and \<open>pop\<close> guard every change of it, so
  it stays within \<open>0..STACK_MAX\<close>.
\<close>

record VM =
  numObjects :: "32 word"
  maxObjects :: "32 word"
  firstObject :: ptr
  stack :: "nat \<Rightarrow> ptr"
  stackSize :: nat
  heap :: heap
  stdout :: string

definition STACK_MAX :: nat where
  "STACK_MAX = 256"

definition INIT_OBJ_NUM_MAX :: "32 word" where
  "INIT_OBJ_NUM_MAX = 8"

text \<open>
  The ways the process ends before a function returns. \<open>assert\<close> prints its message and
  calls \<open>exit(1)\<close>: the error \<open>Exit message\<close>, the message being the last line the
  process prints. \<open>StackExhausted\<close> is the end of a process whose native call stack has
  no room for one more call (see \<open>mark_on\<close> below). No state is left after any of them.
\<close>

datatype error = Exit string | MemFault | StackExhausted

definition assert :: "bool \<Rightarrow> string \<Rightarrow> error + unit" where
  "assert condition message = (if \<not> condition then Inl (Exit message) else Inr ())"

text \<open>\<open>printf\<close> of a constant string.\<close>

definition printf :: "string \<Rightarrow> VM \<Rightarrow> VM" where
  "printf s vm = vm\<lparr> stdout := stdout vm @ s \<rparr>"

text \<open>
  \<open>newVM\<close>. Its argument is what \<open>malloc\<close> returns for the \<open>VM\<close>: \<open>NULL\<close>, or a block
  with arbitrary contents. The code does not check for \<open>NULL\<close> and writes through the
  pointer. It sets the four scalar fields and leaves the stack array as \<open>malloc\<close> returned
  it: \<open>slots\<close>. No \<open>Object\<close> is allocated and nothing is printed yet.
\<close>

definition newVM :: "(nat \<Rightarrow> ptr) option \<Rightarrow> error + VM" where
  "newVM m =
     (case m of
        None \<Rightarrow> Inl MemFault
      | Some slots \<Rightarrow>
          Inr \<lparr> numObjects = 0, maxObjects = INIT_OBJ_NUM_MAX, firstObject = None,
                stack = slots, stackSize = 0, heap = fmempty, stdout = [] \<rparr>)"

definition push :: "VM \<Rightarrow> ptr \<Rightarrow> error + VM" where
  "push vm v =
     (case assert (stackSize vm < STACK_MAX) ''Stack overflow!'' of
        Inl e \<Rightarrow> Inl e
      | Inr _ \<Rightarrow> Inr (vm\<lparr> stack := (stack vm)(stackSize vm := v),
                          stackSize := stackSize vm + 1 \<rparr>))"

definition pop :: "VM \<Rightarrow> error + (VM \<times> ptr)" where
  "pop vm =
     (case assert (stackSize vm > 0) ''Stack underflow!'' of
        Inl e \<Rightarrow> Inl e
      | Inr _ \<Rightarrow> Inr (vm\<lparr> stackSize := stackSize vm - 1 \<rparr>, stack vm (stackSize vm - 1)))"

subsection \<open>The mark phase\<close>

text \<open>
  \<open>mark\<close> reads and writes the heap through the pointer it is given. The recursion is the
  source's: return on a marked object, set the mark, then mark the head and the tail of a
  pair. \<open>object->tail\<close> is read after the call on the head has returned, from the heap
  that call left.
\<close>

function mark :: "heap \<Rightarrow> ptr \<Rightarrow> error + heap" where
  "mark h object =
     (case object of
        None \<Rightarrow> Inl MemFault
      | Some a \<Rightarrow>
          (case fmlookup h a of
             None \<Rightarrow> Inl MemFault
           | Some ob \<Rightarrow>
               if marked ob \<noteq> 0 then Inr h
               else
                 let h1 = fmupd a (ob\<lparr> marked := 1 \<rparr>) h in
                 if type ob = OBJ_PAIR then
                   (case mark h1 (head ob) of
                      Inl e \<Rightarrow> Inl e
                    | Inr h2 \<Rightarrow>
                        (case fmlookup h2 a of
                           None \<Rightarrow> Inl MemFault
                         | Some ob2 \<Rightarrow> mark h2 (tail ob2)))
                 else Inr h1))"
  by pat_completeness auto

text \<open>The objects whose mark is still clear: their number is what the recursion uses up.\<close>

definition unmarked :: "heap \<Rightarrow> addr set" where
  "unmarked h = {a. \<exists>ob. fmlookup h a = Some ob \<and> marked ob = 0}"

lemma unmarked_upd_marked:
  "fmlookup h a = Some ob \<Longrightarrow> marked ob = 0 \<Longrightarrow>
   unmarked (fmupd a (ob\<lparr>marked := 1\<rparr>) h) = unmarked h - {a}"
  by (auto simp: unmarked_def)

lemma finite_unmarked: "finite (unmarked h)"
proof -
  have "unmarked h \<subseteq> fmdom' h" by (auto simp: unmarked_def fmdom'I)
  then show ?thesis by (rule finite_subset) simp
qed

lemma mark_dom_unmarked:
  "mark_dom (h, p) \<Longrightarrow> mark h p = Inr h' \<Longrightarrow> unmarked h' \<subseteq> unmarked h"
proof (induction h p arbitrary: h' rule: mark.pinduct)
  case (1 h object)
  note eq = mark.psimps[OF "1.hyps"]
  from "1.prems" obtain a ob where a: "object = Some a" "fmlookup h a = Some ob"
    unfolding eq by (auto split: option.splits)
  show ?case
  proof (cases "marked ob \<noteq> 0")
    case True
    with a "1.prems" show ?thesis unfolding eq by simp
  next
    case False
    define h1 where "h1 = fmupd a (ob\<lparr>marked := 1\<rparr>) h"
    have u1: "unmarked h1 \<subseteq> unmarked h"
      using a False by (simp add: h1_def unmarked_upd_marked)
    show ?thesis
    proof (cases "type ob = OBJ_PAIR")
      case True
      with a False "1.prems" obtain h2 ob2 where
        h2: "mark h1 (head ob) = Inr h2" "fmlookup h2 a = Some ob2" "mark h2 (tail ob2) = Inr h'"
        unfolding eq by (auto simp: h1_def Let_def split: sum.splits option.splits)
      from "1.IH"(1)[OF a False h1_def True h2(1)] have "unmarked h2 \<subseteq> unmarked h1" .
      moreover from "1.IH"(2)[OF a False h1_def True h2(1) h2(2) h2(3)]
      have "unmarked h' \<subseteq> unmarked h2" .
      ultimately show ?thesis using u1 by blast
    next
      case False
      with a \<open>\<not> marked ob \<noteq> 0\<close> "1.prems" have "h' = h1"
        unfolding eq by (simp add: h1_def Let_def)
      with u1 show ?thesis by simp
    qed
  qed
qed

termination mark
proof (relation "measure (\<lambda>(h, p). card (unmarked h))")
  show "wf (measure (\<lambda>(h, p). card (unmarked h)))" by simp
next
  fix h :: heap and object a ob h1
  assume a: "object = Some a" "fmlookup h a = Some ob" "\<not> marked ob \<noteq> 0"
    "h1 = fmupd a (ob\<lparr>marked := 1\<rparr>) h"
  then have "unmarked h1 = unmarked h - {a}" "a \<in> unmarked h"
    by (auto simp: unmarked_upd_marked) (simp add: unmarked_def)
  then have "card (unmarked h1) < card (unmarked h)"
    using card_Diff1_less[OF finite_unmarked, of a h] by simp
  then show "((h1, head ob), (h, object)) \<in> measure (\<lambda>(h, p). card (unmarked h))" by simp
next
  fix h :: heap and object a ob h1 h2 ob2
  assume a: "object = Some a" "fmlookup h a = Some ob" "\<not> marked ob \<noteq> 0"
    "h1 = fmupd a (ob\<lparr>marked := 1\<rparr>) h" "mark h1 (head ob) = Inr h2"
    "mark_dom (h1, head ob)"
  then have "unmarked h1 = unmarked h - {a}" "a \<in> unmarked h"
    by (auto simp: unmarked_upd_marked) (simp add: unmarked_def)
  then have "card (unmarked h1) < card (unmarked h)"
    using card_Diff1_less[OF finite_unmarked, of a h] by simp
  moreover have "unmarked h2 \<subseteq> unmarked h1" using a mark_dom_unmarked by blast
  then have "card (unmarked h2) \<le> card (unmarked h1)"
    by (simp add: card_mono finite_unmarked)
  ultimately show "((h2, tail ob2), (h, object)) \<in> measure (\<lambda>(h, p). card (unmarked h))"
    by simp
qed

declare mark.simps [simp del]

text \<open>
  \<open>markAll\<close>: the \<open>for\<close> loop over the stack slots \<open>0 .. stackSize - 1\<close>;
  \<open>markAll_from vm i\<close> is the loop from index \<open>i\<close> on.
\<close>

function markAll_from :: "VM \<Rightarrow> nat \<Rightarrow> error + VM" where
  "markAll_from vm i =
     (if i < stackSize vm then
        (case mark (heap vm) (stack vm i) of
           Inl e \<Rightarrow> Inl e
         | Inr h \<Rightarrow> markAll_from (vm\<lparr> heap := h \<rparr>) (i + 1))
      else Inr vm)"
  by pat_completeness auto
termination
  by (relation "measure (\<lambda>(vm, i). stackSize vm - i)") auto

declare markAll_from.simps [simp del]

definition markAll :: "VM \<Rightarrow> error + VM" where
  "markAll vm = markAll_from vm 0"

subsection \<open>The sweep phase\<close>

text \<open>
  The \<open>Object**\<close> that \<open>sweep\<close> walks with is either \<open>&vm->firstObject\<close> or the address
  of the \<open>next\<close> field of an object. \<open>load\<close> is \<open>*object\<close>, \<open>store\<close> is \<open>*object = p\<close>.
\<close>

datatype objref = FirstObjectOf | NextOf addr

fun load :: "VM \<Rightarrow> objref \<Rightarrow> error + ptr" where
  "load vm FirstObjectOf = Inr (firstObject vm)"
| "load vm (NextOf b) =
     (case fmlookup (heap vm) b of None \<Rightarrow> Inl MemFault | Some ob \<Rightarrow> Inr (next ob))"

fun store :: "VM \<Rightarrow> objref \<Rightarrow> ptr \<Rightarrow> error + VM" where
  "store vm FirstObjectOf p = Inr (vm\<lparr> firstObject := p \<rparr>)"
| "store vm (NextOf b) p =
     (case fmlookup (heap vm) b of
        None \<Rightarrow> Inl MemFault
      | Some ob \<Rightarrow> Inr (vm\<lparr> heap := fmupd b (ob\<lparr> next := p \<rparr>) (heap vm) \<rparr>))"

text \<open>
  The loop of \<open>sweep\<close>, with the location \<open>object\<close> as its variable. Each turn either
  frees an object or clears a mark, so it ends on every heap, whatever \<open>next\<close> fields
  it finds.
\<close>

definition markedset :: "heap \<Rightarrow> addr set" where
  "markedset h = {a. \<exists>ob. fmlookup h a = Some ob \<and> marked ob \<noteq> 0}"

function sweep_loop :: "VM \<Rightarrow> objref \<Rightarrow> error + VM" where
  "sweep_loop vm object =
     (case load vm object of
        Inl e \<Rightarrow> Inl e
      | Inr None \<Rightarrow> Inr vm
      | Inr (Some a) \<Rightarrow>
          (case fmlookup (heap vm) a of
             None \<Rightarrow> Inl MemFault
           | Some unreached \<Rightarrow>
               if marked unreached = 0 then
                 (case store vm object (next unreached) of
                    Inl e \<Rightarrow> Inl e
                  | Inr vm1 \<Rightarrow>
                      sweep_loop (vm1\<lparr> heap := fmdrop a (heap vm1),
                                      numObjects := numObjects vm1 - 1 \<rparr>) object)
               else
                 sweep_loop (vm\<lparr> heap := fmupd a (unreached\<lparr> marked := 0 \<rparr>) (heap vm) \<rparr>)
                   (NextOf a)))"
  by pat_completeness auto

lemma finite_markedset: "finite (markedset h)"
proof -
  have "markedset h \<subseteq> fmdom' h" by (auto simp: markedset_def fmdom'I)
  then show ?thesis by (rule finite_subset) simp
qed

lemma store_heap_shape:
  "store vm object p = Inr vm1 \<Longrightarrow>
   fmdom' (heap vm1) = fmdom' (heap vm) \<and> markedset (heap vm1) = markedset (heap vm)"
  by (cases object) (auto simp: markedset_def fmdom'I split: option.splits if_splits)

termination sweep_loop
proof (relation "measure (\<lambda>(vm, r). card (fmdom' (heap vm)) + card (markedset (heap vm)))")
  show "wf (measure (\<lambda>(vm, r). card (fmdom' (heap vm)) + card (markedset (heap vm))))" by simp
next
  fix vm :: VM and object p a unreached vm1
  assume a: "fmlookup (heap vm) a = Some unreached" "marked unreached = 0"
    "store vm object (next unreached) = Inr vm1"
  from store_heap_shape[OF a(3)]
  have d: "fmdom' (heap vm1) = fmdom' (heap vm)" and m: "markedset (heap vm1) = markedset (heap vm)"
    by simp_all
  have "a \<in> fmdom' (heap vm)" using a(1) by (simp add: fmdom'I)
  then have "card (fmdom' (heap vm) - {a}) < card (fmdom' (heap vm))"
    by (intro card_Diff1_less) simp_all
  moreover have "markedset (fmdrop a (heap vm1)) \<subseteq> markedset (heap vm)"
    unfolding m[symmetric] by (auto simp: markedset_def split: if_splits)
  then have "card (markedset (fmdrop a (heap vm1))) \<le> card (markedset (heap vm))"
    by (simp add: card_mono finite_markedset)
  ultimately show "((vm1\<lparr>heap := fmdrop a (heap vm1), numObjects := numObjects vm1 - 1\<rparr>, object),
      (vm, object)) \<in> measure (\<lambda>(vm, r). card (fmdom' (heap vm)) + card (markedset (heap vm)))"
    using d by simp
next
  fix vm :: VM and object p a unreached
  assume a: "fmlookup (heap vm) a = Some unreached" "marked unreached \<noteq> 0"
  have "a \<in> fmdom' (heap vm)" using a(1) by (simp add: fmdom'I)
  then have d: "insert a (fmdom' (heap vm)) = fmdom' (heap vm)" by auto
  have "markedset (fmupd a (unreached\<lparr>marked := 0\<rparr>) (heap vm)) = markedset (heap vm) - {a}"
    by (auto simp: markedset_def)
  moreover have "a \<in> markedset (heap vm)" using a by (simp add: markedset_def)
  ultimately have "card (markedset (fmupd a (unreached\<lparr>marked := 0\<rparr>) (heap vm)))
      < card (markedset (heap vm))"
    using card_Diff1_less[OF finite_markedset, of a "heap vm"] by simp
  then show "((vm\<lparr>heap := fmupd a (unreached\<lparr>marked := 0\<rparr>) (heap vm)\<rparr>, NextOf a), (vm, object))
      \<in> measure (\<lambda>(vm, r). card (fmdom' (heap vm)) + card (markedset (heap vm)))"
    using d by simp
qed

declare sweep_loop.simps [simp del]

definition sweep :: "VM \<Rightarrow> error + VM" where
  "sweep vm = sweep_loop vm FirstObjectOf"

subsection \<open>The collection cycle and the allocator\<close>

text \<open>
  \<open>gc\<close>: the mark phase, the sweep phase, then the new threshold from the count the
  sweep has left. (The copy of \<open>numObjects\<close> that the source takes first is never used.)
\<close>

definition gc :: "VM \<Rightarrow> error + VM" where
  "gc vm =
     (case markAll vm of
        Inl e \<Rightarrow> Inl e
      | Inr vm1 \<Rightarrow>
          (case sweep vm1 of
             Inl e \<Rightarrow> Inl e
           | Inr vm2 \<Rightarrow> Inr (vm2\<lparr> maxObjects := numObjects vm2 * 2 \<rparr>)))"

text \<open>
  \<open>newObject\<close>. Its last argument is what \<open>malloc\<close> returns, after the collection when
  one is due: \<open>NULL\<close>, or the address \<open>a\<close> of a block together with the contents \<open>raw\<close>
  the block comes with (arbitrary: what a freed cell held, for instance). The code does
  not check for \<open>NULL\<close>: the write to \<open>object->type\<close> is then a \<open>MemFault\<close>. It sets
  \<open>type\<close>, \<open>marked\<close> and \<open>next\<close>; \<open>value\<close>, \<open>head\<close> and \<open>tail\<close> stay as they came.
  The theorems assume of \<open>a\<close> what \<open>malloc\<close> guarantees, that it is not allocated when
  \<open>malloc\<close> is called.
\<close>

definition newObject :: "VM \<Rightarrow> ObjectType \<Rightarrow> (addr \<times> Object) option \<Rightarrow> error + (VM \<times> ptr)" where
  "newObject vm ty m =
     (case (if numObjects vm = maxObjects vm
            then gc (printf ''Auto gc is ran\<newline>'' vm) else Inr vm) of
        Inl e \<Rightarrow> Inl e
      | Inr vm1 \<Rightarrow>
          (case m of
             None \<Rightarrow> Inl MemFault
           | Some (a, raw) \<Rightarrow>
               let object = raw\<lparr> type := ty, marked := 0, next := firstObject vm1 \<rparr>
               in Inr (vm1\<lparr> heap := fmupd a object (heap vm1),
                            firstObject := Some a,
                            numObjects := numObjects vm1 + 1 \<rparr>, Some a)))"

text \<open>A write to a field through an object pointer, \<open>object->field = v\<close>.\<close>

definition update_obj :: "VM \<Rightarrow> ptr \<Rightarrow> (Object \<Rightarrow> Object) \<Rightarrow> error + VM" where
  "update_obj vm object f =
     (case object of
        None \<Rightarrow> Inl MemFault
      | Some a \<Rightarrow>
          (case fmlookup (heap vm) a of
             None \<Rightarrow> Inl MemFault
           | Some ob \<Rightarrow> Inr (vm\<lparr> heap := fmupd a (f ob) (heap vm) \<rparr>)))"

text \<open>
  \<open>pushInt\<close> and \<open>pushPair\<close>, statement by statement: \<open>pushPair\<close> allocates the pair
  first and pops its operands afterwards, the tail before the head.
\<close>

definition pushInt :: "VM \<Rightarrow> 32 word \<Rightarrow> (addr \<times> Object) option \<Rightarrow> error + VM" where
  "pushInt vm intValue m =
     (case newObject vm OBJ_INT m of
        Inl e \<Rightarrow> Inl e
      | Inr (vm1, object) \<Rightarrow>
          (case update_obj vm1 object (\<lambda>ob. ob\<lparr> value := intValue \<rparr>) of
             Inl e \<Rightarrow> Inl e
           | Inr vm2 \<Rightarrow> push vm2 object))"

definition pushPair :: "VM \<Rightarrow> (addr \<times> Object) option \<Rightarrow> error + (VM \<times> ptr)" where
  "pushPair vm m =
     (case newObject vm OBJ_PAIR m of
        Inl e \<Rightarrow> Inl e
      | Inr (vm1, object) \<Rightarrow>
          (case pop vm1 of
             Inl e \<Rightarrow> Inl e
           | Inr (vm2, t) \<Rightarrow>
               (case update_obj vm2 object (\<lambda>ob. ob\<lparr> tail := t \<rparr>) of
                  Inl e \<Rightarrow> Inl e
                | Inr vm3 \<Rightarrow>
                    (case pop vm3 of
                       Inl e \<Rightarrow> Inl e
                     | Inr (vm4, h) \<Rightarrow>
                         (case update_obj vm4 object (\<lambda>ob. ob\<lparr> head := h \<rparr>) of
                            Inl e \<Rightarrow> Inl e
                          | Inr vm5 \<Rightarrow>
                              (case push vm5 object of
                                 Inl e \<Rightarrow> Inl e
                               | Inr vm6 \<Rightarrow> Inr (vm6, object)))))))"

text \<open>
  \<open>freeVM\<close>: empty the stack, collect, release the \<open>VM\<close>. What remains is the heap of
  \<open>Object\<close>s.
\<close>

definition freeVM :: "VM \<Rightarrow> error + heap" where
  "freeVM vm =
     (case gc (vm\<lparr> stackSize := 0 \<rparr>) of
        Inl e \<Rightarrow> Inl e
      | Inr vm1 \<Rightarrow> Inr (heap vm1))"

subsection \<open>The native call stack\<close>

text \<open>
  The functions above are the code on the C abstract machine, where calls nest without
  bound. A process runs them on a native stack of bounded size, and a call for which
  there is no room left ends the process with a segmentation fault: \<open>StackExhausted\<close>.
  \<open>mark\<close> is the only recursive function of main.c; it nests one activation per object
  of the path it follows, and the code has no guard on the depth. \<open>mark_on n\<close> is
  \<open>mark\<close> with room for \<open>n\<close> activations of \<open>mark\<close> on the native stack, and
  \<open>markAll_on\<close>, \<open>gc_on\<close>, \<open>newObject_on\<close>, \<open>pushInt_on\<close>, \<open>pushPair_on\<close> and
  \<open>freeVM_on\<close> are the functions that reach \<open>mark\<close>, with that room at the call of
  \<open>markAll\<close>. (The other functions nest to a fixed depth.)
\<close>

fun mark_on :: "nat \<Rightarrow> heap \<Rightarrow> ptr \<Rightarrow> error + heap" where
  "mark_on 0 h object = Inl StackExhausted"
| "mark_on (Suc n) h object =
     (case object of
        None \<Rightarrow> Inl MemFault
      | Some a \<Rightarrow>
          (case fmlookup h a of
             None \<Rightarrow> Inl MemFault
           | Some ob \<Rightarrow>
               if marked ob \<noteq> 0 then Inr h
               else
                 let h1 = fmupd a (ob\<lparr> marked := 1 \<rparr>) h in
                 if type ob = OBJ_PAIR then
                   (case mark_on n h1 (head ob) of
                      Inl e \<Rightarrow> Inl e
                    | Inr h2 \<Rightarrow>
                        (case fmlookup h2 a of
                           None \<Rightarrow> Inl MemFault
                         | Some ob2 \<Rightarrow> mark_on n h2 (tail ob2)))
                 else Inr h1))"

function markAll_from_on :: "nat \<Rightarrow> VM \<Rightarrow> nat \<Rightarrow> error + VM" where
  "markAll_from_on n vm i =
     (if i < stackSize vm then
        (case mark_on n (heap vm) (stack vm i) of
           Inl e \<Rightarrow> Inl e
         | Inr h \<Rightarrow> markAll_from_on n (vm\<lparr> heap := h \<rparr>) (i + 1))
      else Inr vm)"
  by pat_completeness auto
termination
  by (relation "measure (\<lambda>(n, vm, i). stackSize vm - i)") auto

declare markAll_from_on.simps [simp del]

definition markAll_on :: "nat \<Rightarrow> VM \<Rightarrow> error + VM" where
  "markAll_on n vm = markAll_from_on n vm 0"

definition gc_on :: "nat \<Rightarrow> VM \<Rightarrow> error + VM" where
  "gc_on n vm =
     (case markAll_on n vm of
        Inl e \<Rightarrow> Inl e
      | Inr vm1 \<Rightarrow>
          (case sweep vm1 of
             Inl e \<Rightarrow> Inl e
           | Inr vm2 \<Rightarrow> Inr (vm2\<lparr> maxObjects := numObjects vm2 * 2 \<rparr>)))"

definition newObject_on ::
  "nat \<Rightarrow> VM \<Rightarrow> ObjectType \<Rightarrow> (addr \<times> Object) option \<Rightarrow> error + (VM \<times> ptr)" where
  "newObject_on n vm ty m =
     (case (if numObjects vm = maxObjects vm
            then gc_on n (printf ''Auto gc is ran\<newline>'' vm) else Inr vm) of
        Inl e \<Rightarrow> Inl e
      | Inr vm1 \<Rightarrow>
          (case m of
             None \<Rightarrow> Inl MemFault
           | Some (a, raw) \<Rightarrow>
               let object = raw\<lparr> type := ty, marked := 0, next := firstObject vm1 \<rparr>
               in Inr (vm1\<lparr> heap := fmupd a object (heap vm1),
                            firstObject := Some a,
                            numObjects := numObjects vm1 + 1 \<rparr>, Some a)))"

definition pushInt_on ::
  "nat \<Rightarrow> VM \<Rightarrow> 32 word \<Rightarrow> (addr \<times> Object) option \<Rightarrow> error + VM" where
  "pushInt_on n vm intValue m =
     (case newObject_on n vm OBJ_INT m of
        Inl e \<Rightarrow> Inl e
      | Inr (vm1, object) \<Rightarrow>
          (case update_obj vm1 object (\<lambda>ob. ob\<lparr> value := intValue \<rparr>) of
             Inl e \<Rightarrow> Inl e
           | Inr vm2 \<Rightarrow> push vm2 object))"

definition pushPair_on ::
  "nat \<Rightarrow> VM \<Rightarrow> (addr \<times> Object) option \<Rightarrow> error + (VM \<times> ptr)" where
  "pushPair_on n vm m =
     (case newObject_on n vm OBJ_PAIR m of
        Inl e \<Rightarrow> Inl e
      | Inr (vm1, object) \<Rightarrow>
          (case pop vm1 of
             Inl e \<Rightarrow> Inl e
           | Inr (vm2, t) \<Rightarrow>
               (case update_obj vm2 object (\<lambda>ob. ob\<lparr> tail := t \<rparr>) of
                  Inl e \<Rightarrow> Inl e
                | Inr vm3 \<Rightarrow>
                    (case pop vm3 of
                       Inl e \<Rightarrow> Inl e
                     | Inr (vm4, h) \<Rightarrow>
                         (case update_obj vm4 object (\<lambda>ob. ob\<lparr> head := h \<rparr>) of
                            Inl e \<Rightarrow> Inl e
                          | Inr vm5 \<Rightarrow>
                              (case push vm5 object of
                                 Inl e \<Rightarrow> Inl e
                               | Inr vm6 \<Rightarrow> Inr (vm6, object)))))))"

definition freeVM_on :: "nat \<Rightarrow> VM \<Rightarrow> error + heap" where
  "freeVM_on n vm =
     (case gc_on n (vm\<lparr> stackSize := 0 \<rparr>) of
        Inl e \<Rightarrow> Inl e
      | Inr vm1 \<Rightarrow> Inr (heap vm1))"

section \<open>Specification vocabulary\<close>

text \<open>
  The notions the claims are stated with: the edges and the reachability of the object
  graph, pointers that are allocated, the heap with a set of objects marked, the registry
  as a list, and the invariant of the states the machine's operations produce.
\<close>

text \<open>
  The object graph: a pair has an edge to the object its head points to and to the object
  its tail points to; an integer has none.
\<close>

definition edge :: "heap \<Rightarrow> addr \<Rightarrow> addr \<Rightarrow> bool" where
  "edge h a b =
     (case fmlookup h a of
        None \<Rightarrow> False
      | Some ob \<Rightarrow> type ob = OBJ_PAIR \<and> (head ob = Some b \<or> tail ob = Some b))"

text \<open>
  \<open>reach h S a z\<close>: there is a path of edges from \<open>a\<close> to \<open>z\<close> all of whose objects,
  \<open>a\<close> and \<open>z\<close> included, are in \<open>S\<close>.
\<close>

inductive reach :: "heap \<Rightarrow> addr set \<Rightarrow> addr \<Rightarrow> addr \<Rightarrow> bool" for h :: heap and S :: "addr set" where
  reach_refl: "a \<in> S \<Longrightarrow> reach h S a a"
| reach_step: "a \<in> S \<Longrightarrow> edge h a b \<Longrightarrow> reach h S b z \<Longrightarrow> reach h S a z"

text \<open>A pointer is valid when it is not \<open>NULL\<close> and the address is allocated.\<close>

definition valid :: "heap \<Rightarrow> ptr \<Rightarrow> bool" where
  "valid h p = (case p of None \<Rightarrow> False | Some a \<Rightarrow> a |\<in>| fmdom h)"

text \<open>A heap is closed when the head and the tail of every pair are valid: nothing dangles.\<close>

definition closed :: "heap \<Rightarrow> bool" where
  "closed h = fmpred (\<lambda>a ob. type ob = OBJ_PAIR \<longrightarrow> valid h (head ob) \<and> valid h (tail ob)) h"

text \<open>
  \<open>set_marks X h\<close> is the heap \<open>h\<close> with the mark of the unmarked objects of \<open>X\<close> set;
  every other field and every other object are as in \<open>h\<close>.
\<close>

definition set_marks :: "addr set \<Rightarrow> heap \<Rightarrow> heap" where
  "set_marks X h =
     fmmap_keys (\<lambda>a ob. if a \<in> X \<and> marked ob = 0 then ob\<lparr> marked := 1 \<rparr> else ob) h"

text \<open>
  The objects reachable from a pointer through unmarked objects only: these are the
  objects one call of \<open>mark\<close> visits.
\<close>

definition ureach :: "heap \<Rightarrow> ptr \<Rightarrow> addr set" where
  "ureach h p = (case p of None \<Rightarrow> {} | Some a \<Rightarrow> {z. reach h (unmarked h) a z})"

text \<open>
  The marked objects are closed under edges: what a marked object points to is marked.
  This holds when nothing is marked, and between the calls of \<open>mark\<close> that \<open>markAll\<close>
  makes.
\<close>

definition marks_closed :: "heap \<Rightarrow> bool" where
  "marks_closed h \<longleftrightarrow> (\<forall>a b. a \<in> markedset h \<longrightarrow> edge h a b \<longrightarrow> b \<in> markedset h)"

text \<open>The objects reachable from a pointer, and those reachable from the stack entries.\<close>

definition reachable_from :: "heap \<Rightarrow> ptr \<Rightarrow> addr set" where
  "reachable_from h p = (case p of None \<Rightarrow> {} | Some a \<Rightarrow> {z. reach h (fmdom' h) a z})"

definition roots_reach_from :: "VM \<Rightarrow> nat \<Rightarrow> addr set" where
  "roots_reach_from vm i = (\<Union>j\<in>{i..<stackSize vm}. reachable_from (heap vm) (stack vm j))"

definition roots_reach :: "VM \<Rightarrow> addr set" where
  "roots_reach vm = roots_reach_from vm 0"

text \<open>
  \<open>is_list h p as\<close>: following \<open>next\<close> from \<open>p\<close> visits the allocated objects \<open>as\<close>, in
  this order, and then reaches \<open>NULL\<close>.
\<close>

primrec is_list :: "heap \<Rightarrow> ptr \<Rightarrow> addr list \<Rightarrow> bool" where
  "is_list h p [] \<longleftrightarrow> p = None"
| "is_list h p (a # as) \<longleftrightarrow>
     p = Some a \<and> (case fmlookup h a of None \<Rightarrow> False | Some ob \<Rightarrow> is_list h (next ob) as)"

text \<open>Two cells agree in everything but the collector's fields \<open>next\<close> and \<open>marked\<close>.\<close>

definition same_payload :: "Object \<Rightarrow> Object \<Rightarrow> bool" where
  "same_payload ob ob' \<longleftrightarrow>
     type ob' = type ob \<and> value ob' = value ob \<and> head ob' = head ob \<and> tail ob' = tail ob"

text \<open>
  What the loop of \<open>sweep\<close> has done when it has walked the list \<open>bs\<close> that starts at the
  location \<open>r\<close>: the marked objects of \<open>bs\<close> are the list at \<open>r\<close> now, the unmarked ones
  are freed and counted off, the marks of \<open>bs\<close> are clear, and nothing else has
  changed, except the \<open>next\<close> field at \<open>r\<close> when \<open>r\<close> is one.
\<close>

definition swept :: "VM \<Rightarrow> objref \<Rightarrow> addr list \<Rightarrow> VM \<Rightarrow> bool" where
  "swept vm r bs vm' \<longleftrightarrow>
     (\<exists>p'. load vm' r = Inr p' \<and>
           is_list (heap vm') p' (filter (\<lambda>a. a \<in> markedset (heap vm)) bs)) \<and>
     fmdom' (heap vm') = fmdom' (heap vm) - (set bs \<inter> unmarked (heap vm)) \<and>
     numObjects vm' =
       numObjects vm - of_nat (length (filter (\<lambda>a. a \<in> unmarked (heap vm)) bs)) \<and>
     (\<forall>a ob ob'. fmlookup (heap vm) a = Some ob \<longrightarrow> fmlookup (heap vm') a = Some ob' \<longrightarrow>
        same_payload ob ob' \<and> marked ob' = (if a \<in> set bs then 0 else marked ob) \<and>
        (a \<notin> set bs \<longrightarrow> r \<noteq> NextOf a \<longrightarrow> next ob' = next ob)) \<and>
     stack vm' = stack vm \<and> stackSize vm' = stackSize vm \<and> maxObjects vm' = maxObjects vm \<and>
     stdout vm' = stdout vm \<and>
     (r \<noteq> FirstObjectOf \<longrightarrow> firstObject vm' = firstObject vm)"

text \<open>
  The well-formed states: the registry is a list of exactly the allocated objects and
  \<open>numObjects\<close> counts them (modulo \<open>2 ^ 32\<close>), no object is marked, no pointer of a
  pair dangles, every stack entry is valid and the stack is within its capacity. Every
  state the machine's operations produce is well-formed (\<open>reachable_wf\<close>).
\<close>

definition wf_vm :: "VM \<Rightarrow> bool" where
  "wf_vm vm \<longleftrightarrow>
     (\<exists>as. is_list (heap vm) (firstObject vm) as \<and> set as = fmdom' (heap vm) \<and>
           numObjects vm = of_nat (length as)) \<and>
     markedset (heap vm) = {} \<and>
     closed (heap vm) \<and>
     (\<forall>j. j < stackSize vm \<longrightarrow> valid (heap vm) (stack vm j)) \<and>
     stackSize vm \<le> STACK_MAX"

text \<open>
  The state in which \<open>newObject\<close> calls \<open>malloc\<close>: after the collection, when one is due.
  \<open>malloc_ok vm a\<close> says that \<open>a\<close> is an address \<open>malloc\<close> may return there: one that is
  not allocated (it may be one that this very collection has freed).
\<close>

definition at_malloc :: "VM \<Rightarrow> error + VM" where
  "at_malloc vm =
     (if numObjects vm = maxObjects vm then gc (printf ''Auto gc is ran\<newline>'' vm) else Inr vm)"

definition malloc_ok :: "VM \<Rightarrow> addr \<Rightarrow> bool" where
  "malloc_ok vm a =
     (case at_malloc vm of Inl e \<Rightarrow> True | Inr vm1 \<Rightarrow> a |\<notin>| fmdom (heap vm1))"

text \<open>
  The block \<open>raw\<close> made a new cell in front of the registry of \<open>vm\<close> (its \<open>value\<close>,
  \<open>head\<close> and \<open>tail\<close> are those of \<open>raw\<close>), and the state with a cell linked in.
\<close>

definition cell :: "VM \<Rightarrow> ObjectType \<Rightarrow> Object \<Rightarrow> Object" where
  "cell vm ty raw = raw\<lparr> type := ty, marked := 0, next := firstObject vm \<rparr>"

definition linked :: "VM \<Rightarrow> addr \<Rightarrow> Object \<Rightarrow> VM" where
  "linked vm a ob =
     vm\<lparr> heap := fmupd a ob (heap vm), firstObject := Some a, numObjects := numObjects vm + 1 \<rparr>"

text \<open>
  The states a host can reach: from a state \<open>newVM\<close> returns, by \<open>pushInt\<close> and
  \<open>pushPair\<close> (with a block that \<open>malloc\<close> may return: any contents, at an address that
  is not allocated), \<open>pop\<close>, \<open>push\<close> of a valid pointer, \<open>gc\<close>, and by a write of a
  valid pointer to the head or the tail of an allocated pair (as the tests do, to tie a
  cycle).
\<close>

inductive reachable :: "VM \<Rightarrow> bool" where
  r_newVM: "newVM m = Inr vm \<Longrightarrow> reachable vm"
| r_pushInt:
    "reachable vm \<Longrightarrow> malloc_ok vm a \<Longrightarrow> pushInt vm v (Some (a, raw)) = Inr vm' \<Longrightarrow>
     reachable vm'"
| r_pushPair:
    "reachable vm \<Longrightarrow> malloc_ok vm a \<Longrightarrow> pushPair vm (Some (a, raw)) = Inr (vm', p) \<Longrightarrow>
     reachable vm'"
| r_pop: "reachable vm \<Longrightarrow> pop vm = Inr (vm', p) \<Longrightarrow> reachable vm'"
| r_push: "reachable vm \<Longrightarrow> valid (heap vm) p \<Longrightarrow> push vm p = Inr vm' \<Longrightarrow> reachable vm'"
| r_gc: "reachable vm \<Longrightarrow> gc vm = Inr vm' \<Longrightarrow> reachable vm'"
| r_set_head:
    "reachable vm \<Longrightarrow> fmlookup (heap vm) x = Some ob \<Longrightarrow> type ob = OBJ_PAIR \<Longrightarrow>
     valid (heap vm) p \<Longrightarrow> update_obj vm (Some x) (\<lambda>ob. ob\<lparr> head := p \<rparr>) = Inr vm' \<Longrightarrow>
     reachable vm'"
| r_set_tail:
    "reachable vm \<Longrightarrow> fmlookup (heap vm) x = Some ob \<Longrightarrow> type ob = OBJ_PAIR \<Longrightarrow>
     valid (heap vm) p \<Longrightarrow> update_obj vm (Some x) (\<lambda>ob. ob\<lparr> tail := p \<rparr>) = Inr vm' \<Longrightarrow>
     reachable vm'"

text \<open>
  \<open>allocates vm1 ty a raw r\<close>: the result \<open>r\<close> is the pointer to \<open>a\<close> and the state \<open>vm1\<close>
  with a new, unmarked cell of type \<open>ty\<close> at \<open>a\<close>, linked in front of the registry; the
  rest of the cell is as the block \<open>raw\<close> came, and nothing is printed.
\<close>

definition allocates ::
  "VM \<Rightarrow> ObjectType \<Rightarrow> addr \<Rightarrow> Object \<Rightarrow> error + (VM \<times> ptr) \<Rightarrow> bool" where
  "allocates vm1 ty a raw r \<longleftrightarrow>
     (\<exists>vm' ob. r = Inr (vm', Some a) \<and>
        fmlookup (heap vm') a = Some ob \<and> type ob = ty \<and> marked ob = 0 \<and>
        next ob = firstObject vm1 \<and>
        value ob = value raw \<and> head ob = head raw \<and> tail ob = tail raw \<and>
        firstObject vm' = Some a \<and>
        numObjects vm' = numObjects vm1 + 1 \<and>
        (\<forall>c. c \<noteq> a \<longrightarrow> fmlookup (heap vm') c = fmlookup (heap vm1) c) \<and>
        (\<forall>as. is_list (heap vm1) (firstObject vm1) as \<and> a \<notin> set as \<longrightarrow>
           is_list (heap vm') (firstObject vm') (a # as)) \<and>
        maxObjects vm' = maxObjects vm1 \<and> stack vm' = stack vm1 \<and>
        stackSize vm' = stackSize vm1 \<and> stdout vm' = stdout vm1)"

text \<open>
  \<open>head_chain h k\<close>: the objects \<open>2\<close>, \<open>4\<close>, ..., \<open>2 * k\<close> are unmarked pairs, and
  the head of each is the one before it (the head of \<open>2\<close> is the object \<open>0\<close>): a chain
  of \<open>k\<close> pairs along \<open>head\<close>, which \<open>mark\<close> follows from \<open>2 * k\<close> down.
\<close>

definition head_chain :: "heap \<Rightarrow> nat \<Rightarrow> bool" where
  "head_chain h k \<longleftrightarrow>
     (\<forall>i. 0 < i \<and> i \<le> k \<longrightarrow>
        (\<exists>ob. fmlookup h (2 * i) = Some ob \<and> marked ob = 0 \<and> type ob = OBJ_PAIR \<and>
           head ob = Some (2 * (i - 1))))"

section \<open>Example states\<close>

text \<open>
  Two pairs on a cycle (the tail of each leads back to object 0), an integer they reach
  and an integer they do not reach; and the same heap with the marks that \<open>mark\<close> sets
  from object 0.
\<close>

definition cyclic_heap :: heap where
  "cyclic_heap =
     fmupd 0 \<lparr> next = Some 1, marked = 0, type = OBJ_PAIR, value = 0, head = Some 1, tail = Some 0 \<rparr>
    (fmupd 1 \<lparr> next = Some 2, marked = 0, type = OBJ_PAIR, value = 0, head = Some 2, tail = Some 0 \<rparr>
    (fmupd 2 \<lparr> next = Some 3, marked = 0, type = OBJ_INT, value = 7, head = None, tail = None \<rparr>
    (fmupd 3 \<lparr> next = None, marked = 0, type = OBJ_INT, value = 8, head = None, tail = None \<rparr>
     fmempty)))"

definition cyclic_heap_marked :: heap where
  "cyclic_heap_marked =
     fmupd 0 \<lparr> next = Some 1, marked = 1, type = OBJ_PAIR, value = 0, head = Some 1, tail = Some 0 \<rparr>
    (fmupd 1 \<lparr> next = Some 2, marked = 1, type = OBJ_PAIR, value = 0, head = Some 2, tail = Some 0 \<rparr>
    (fmupd 2 \<lparr> next = Some 3, marked = 1, type = OBJ_INT, value = 7, head = None, tail = None \<rparr>
    (fmupd 3 \<lparr> next = None, marked = 0, type = OBJ_INT, value = 8, head = None, tail = None \<rparr>
     fmempty)))"

text \<open>A registry of three objects, the middle one unmarked.\<close>

definition sweep_example :: VM where
  "sweep_example =
     \<lparr> numObjects = 3, maxObjects = 8, firstObject = Some 2, stack = (\<lambda>_. None), stackSize = 0,
       heap =
         fmupd 2 \<lparr> next = Some 1, marked = 1, type = OBJ_INT, value = 5, head = None, tail = None \<rparr>
        (fmupd 1 \<lparr> next = Some 0, marked = 0, type = OBJ_INT, value = 6, head = None, tail = None \<rparr>
        (fmupd 0 \<lparr> next = None, marked = 1, type = OBJ_INT, value = 7, head = None, tail = None \<rparr>
         fmempty)),
       stdout = [] \<rparr>"

text \<open>
  A state \<open>newVM\<close> returns; a block as \<open>malloc\<close> may return it, with the contents of a
  pair that was marked; the state after \<open>pushInt\<close> of 5 with this block on the new
  state (\<open>five\<close> is its cell), and the same with the integer popped.
\<close>

definition empty_vm :: VM where
  "empty_vm =
     \<lparr> numObjects = 0, maxObjects = 8, firstObject = None, stack = (\<lambda>_. None), stackSize = 0,
       heap = fmempty, stdout = [] \<rparr>"

definition junk :: Object where
  "junk = \<lparr> next = Some 99, marked = 1, type = OBJ_PAIR, value = 77, head = Some 98,
            tail = Some 97 \<rparr>"

definition five :: Object where
  "five = \<lparr> next = None, marked = 0, type = OBJ_INT, value = 5, head = Some 98,
            tail = Some 97 \<rparr>"

definition one_int :: VM where
  "one_int =
     \<lparr> numObjects = 1, maxObjects = 8, firstObject = Some 0,
       stack = (\<lambda>_. None)(0 := Some 0), stackSize = 1,
       heap = fmupd 0 five fmempty, stdout = [] \<rparr>"


text \<open>
  Three integers, two of them on the stack, and a collection due; and the state its
  collection returns.
\<close>

definition int_cell :: "ptr \<Rightarrow> 32 word \<Rightarrow> Object" where
  "int_cell n v = \<lparr> next = n, marked = 0, type = OBJ_INT, value = v, head = None, tail = None \<rparr>"

definition due_vm :: VM where
  "due_vm =
     \<lparr> numObjects = 3, maxObjects = 3, firstObject = Some 2,
       stack = (\<lambda>_. None)(0 := Some 0, 1 := Some 1), stackSize = 2,
       heap = fmupd 2 (int_cell (Some 1) 7) (fmupd 1 (int_cell (Some 0) 6)
             (fmupd 0 (int_cell None 5) fmempty)),
       stdout = [] \<rparr>"

definition due_vm_collected :: VM where
  "due_vm_collected =
     \<lparr> numObjects = 2, maxObjects = 4, firstObject = Some 1,
       stack = (\<lambda>_. None)(0 := Some 0, 1 := Some 1), stackSize = 2,
       heap = fmupd 1 (int_cell (Some 0) 6) (fmupd 0 (int_cell None 5) fmempty),
       stdout = [] \<rparr>"

text \<open>A full stack: 256 entries, each pointing to the one object.\<close>

definition full_vm :: VM where
  "full_vm =
     \<lparr> numObjects = 1, maxObjects = 8, firstObject = Some 0,
       stack = (\<lambda>_. Some 0), stackSize = 256,
       heap = fmupd 0 (int_cell None 5) fmempty, stdout = [] \<rparr>"


text \<open>
  The five tests of main.c, up to their assertions. \<open>andthen\<close> sequences two steps, the
  second not run when the first was fatal; \<open>set_tail\<close> is the tests' \<open>a->tail = b\<close>. The
  addresses 10, 11, ... stand for what \<open>malloc\<close> returns: \<open>blk a\<close> is a block at \<open>a\<close>
  with the contents \<open>junk\<close>, and \<open>slots0\<close> is the block for the \<open>VM\<close>.
\<close>

definition blk :: "addr \<Rightarrow> (addr \<times> Object) option" where
  "blk a = Some (a, junk)"

definition slots0 :: "(nat \<Rightarrow> ptr) option" where
  "slots0 = Some (\<lambda>_. None)"

definition andthen :: "error + 'a \<Rightarrow> ('a \<Rightarrow> error + 'b) \<Rightarrow> error + 'b" where
  "andthen r f = (case r of Inl e \<Rightarrow> Inl e | Inr x \<Rightarrow> f x)"

definition set_tail :: "VM \<Rightarrow> ptr \<Rightarrow> ptr \<Rightarrow> error + VM" where
  "set_tail vm a b = update_obj vm a (\<lambda>ob. ob\<lparr> tail := b \<rparr>)"

definition test1 :: "error + VM" where
  "test1 =
     andthen (newVM slots0) (\<lambda>vm.
     andthen (pushInt vm 1 (blk 10)) (\<lambda>vm.
     andthen (pushInt vm 2 (blk 11)) (\<lambda>vm. gc vm)))"

definition test2 :: "error + VM" where
  "test2 =
     andthen (newVM slots0) (\<lambda>vm.
     andthen (pushInt vm 1 (blk 10)) (\<lambda>vm.
     andthen (pushInt vm 2 (blk 11)) (\<lambda>vm.
     andthen (pop vm) (\<lambda>(vm, _).
     andthen (pop vm) (\<lambda>(vm, _). gc vm)))))"

definition test3 :: "error + VM" where
  "test3 =
     andthen (newVM slots0) (\<lambda>vm.
     andthen (pushInt vm 1 (blk 10)) (\<lambda>vm.
     andthen (pushInt vm 2 (blk 11)) (\<lambda>vm.
     andthen (pushPair vm (blk 12)) (\<lambda>(vm, _).
     andthen (pushInt vm 3 (blk 13)) (\<lambda>vm.
     andthen (pushInt vm 4 (blk 14)) (\<lambda>vm.
     andthen (pushPair vm (blk 15)) (\<lambda>(vm, _).
     andthen (pushPair vm (blk 16)) (\<lambda>(vm, _). Inr vm))))))))"

definition test4_setup :: "error + VM" where
  "test4_setup =
     andthen (newVM slots0) (\<lambda>vm.
     andthen (pushInt vm 1 (blk 10)) (\<lambda>vm.
     andthen (pushInt vm 2 (blk 11)) (\<lambda>vm.
     andthen (pushPair vm (blk 12)) (\<lambda>(vm, a).
     andthen (pushInt vm 3 (blk 13)) (\<lambda>vm.
     andthen (pushInt vm 4 (blk 14)) (\<lambda>vm.
     andthen (pushPair vm (blk 15)) (\<lambda>(vm, b).
     andthen (set_tail vm a b) (\<lambda>vm.
     set_tail vm b a))))))))"

definition test5 :: "error + VM" where
  "test5 =
     andthen test4_setup (\<lambda>vm.
     andthen (pushInt vm 5 (blk 16)) (\<lambda>vm.
     andthen (pushInt vm 6 (blk 17)) (\<lambda>vm.
     andthen (pushPair vm (blk 18)) (\<lambda>(vm, c). Inr vm))))"

text \<open>
  A chain of three pairs built by \<open>pushInt\<close> and \<open>pushPair\<close> alone, and its heap: the
  pair 16 on the stack has the pair 14 as its head, which has the pair 12 as its head, so
  \<open>mark\<close> nests four deep on it. Eight objects are allocated, so that a collection
  is due.
\<close>

definition deep_chain :: "error + VM" where
  "deep_chain =
     andthen (newVM slots0) (\<lambda>vm.
     andthen (pushInt vm 1 (blk 10)) (\<lambda>vm.
     andthen (pushInt vm 2 (blk 11)) (\<lambda>vm.
     andthen (pushPair vm (blk 12)) (\<lambda>(vm, _).
     andthen (pushInt vm 3 (blk 13)) (\<lambda>vm.
     andthen (pushPair vm (blk 14)) (\<lambda>(vm, _).
     andthen (pushInt vm 4 (blk 15)) (\<lambda>vm.
     andthen (pushPair vm (blk 16)) (\<lambda>(vm, _).
     pushInt vm 5 (blk 17)))))))))"

definition deep_heap :: heap where
  "deep_heap =
     fmupd 17 (junk\<lparr> next := Some 16, marked := 0, type := OBJ_INT, value := 5 \<rparr>)
    (fmupd 16 (junk\<lparr> next := Some 15, marked := 0, type := OBJ_PAIR, head := Some 14,
                      tail := Some 15 \<rparr>)
    (fmupd 15 (junk\<lparr> next := Some 14, marked := 0, type := OBJ_INT, value := 4 \<rparr>)
    (fmupd 14 (junk\<lparr> next := Some 13, marked := 0, type := OBJ_PAIR, head := Some 12,
                      tail := Some 13 \<rparr>)
    (fmupd 13 (junk\<lparr> next := Some 12, marked := 0, type := OBJ_INT, value := 3 \<rparr>)
    (fmupd 12 (junk\<lparr> next := Some 11, marked := 0, type := OBJ_PAIR, head := Some 10,
                      tail := Some 11 \<rparr>)
    (fmupd 11 (junk\<lparr> next := Some 10, marked := 0, type := OBJ_INT, value := 2 \<rparr>)
    (fmupd 10 (junk\<lparr> next := None, marked := 0, type := OBJ_INT, value := 1 \<rparr>)
     fmempty)))))))"

section \<open>Lemmas\<close>

subsection \<open>Paths in the object graph\<close>

lemma reach_in: "reach h S a z \<Longrightarrow> a \<in> S \<and> z \<in> S"
  by (induction rule: reach.induct) auto

lemma reach_mono: "reach h S a z \<Longrightarrow> S \<subseteq> T \<Longrightarrow> reach h T a z"
  by (induction rule: reach.induct) (auto intro: reach.intros)

lemma reach_trans: "reach h S a b \<Longrightarrow> reach h S b z \<Longrightarrow> reach h S a z"
  by (induction rule: reach.induct) (auto intro: reach.intros)

lemma reach_cong:
  "reach h S a z \<Longrightarrow> (\<And>x y. x \<in> S \<Longrightarrow> edge h x y \<Longrightarrow> edge h' x y) \<Longrightarrow> reach h' S a z"
  by (induction rule: reach.induct) (auto intro: reach.intros)

lemma reach_avoid:
  "reach h S b z \<Longrightarrow>
   reach h (S - {a}) b z \<or> z = a \<or> (\<exists>c. edge h a c \<and> reach h (S - {a}) c z)"
proof (induction rule: reach.induct)
  case (reach_refl b)
  then show ?case by (cases "b = a") (auto intro: reach.intros)
next
  case (reach_step b c z)
  then show ?case by (cases "b = a") (auto intro: reach.intros)
qed

lemma reach_split:
  "reach h S y z \<Longrightarrow>
   reach h (S - B) y z \<or> (\<exists>w\<in>B. reach h S y w \<and> reach h S w z)"
proof (induction rule: reach.induct)
  case (reach_refl y)
  then show ?case by (cases "y \<in> B") (auto intro: reach.intros)
next
  case (reach_step y c z)
  show ?case
  proof (cases "y \<in> B")
    case True
    have "reach h S y y" using reach_step.hyps(1) by (rule reach.reach_refl)
    moreover have "reach h S y z" using reach_step.hyps by (auto intro: reach.intros)
    ultimately show ?thesis using True by blast
  next
    case False
    with reach_step show ?thesis by (auto intro: reach.intros)
  qed
qed

lemma reach_within:
  "reach h S b z \<Longrightarrow> (\<And>w. reach h S b w \<Longrightarrow> w \<in> T) \<Longrightarrow> reach h (S \<inter> T) b z"
proof (induction rule: reach.induct)
  case (reach_refl b)
  then show ?case by (auto intro: reach.intros)
next
  case (reach_step b c z)
  have "reach h (S \<inter> T) c z"
    using reach_step.hyps(1,2) reach_step.prems by (intro reach_step.IH) (auto intro: reach.intros)
  moreover have "b \<in> S \<inter> T" using reach_step.hyps(1) reach_step.prems by (auto intro: reach.intros)
  ultimately show ?case using reach_step.hyps(2) by (auto intro: reach.intros)
qed

lemma reach_unfold:
  assumes a: "a \<in> S"
    and out: "\<And>c. edge h a c \<longleftrightarrow> c = x \<or> c = y"
  defines "B \<equiv> {z. reach h (S - {a}) x z}"
  defines "C \<equiv> {z. reach h (S - {a} - B) y z}"
  shows "{z. reach h S a z} = insert a (B \<union> C)"
proof (intro set_eqI iffI)
  fix z assume "z \<in> {z. reach h S a z}"
  then have r: "reach h S a z" by simp
  from reach_avoid[OF r, of a] consider "reach h (S - {a}) a z" | "z = a"
    | c where "edge h a c" "reach h (S - {a}) c z" by blast
  then show "z \<in> insert a (B \<union> C)"
  proof cases
    case 1
    then show ?thesis using reach_in by fastforce
  next
    case 2
    then show ?thesis by simp
  next
    case 3
    from 3(1) out have "c = x \<or> c = y" by simp
    then show ?thesis
    proof
      assume "c = x" with 3(2) show ?thesis by (simp add: B_def)
    next
      assume cy: "c = y"
      from reach_split[OF 3(2)[unfolded cy], of B]
      show ?thesis
      proof
        assume "reach h (S - {a} - B) y z" then show ?thesis by (simp add: C_def)
      next
        assume "\<exists>w\<in>B. reach h (S - {a}) y w \<and> reach h (S - {a}) w z"
        then obtain w where "reach h (S - {a}) x w" "reach h (S - {a}) w z"
          by (auto simp: B_def)
        then have "reach h (S - {a}) x z" by (rule reach_trans)
        then show ?thesis by (simp add: B_def)
      qed
    qed
  qed
next
  fix z assume "z \<in> insert a (B \<union> C)"
  then consider "z = a" | "z \<in> B" | "z \<in> C" by blast
  then have "reach h S a z"
  proof cases
    case 1 then show ?thesis using a by (auto intro: reach.intros)
  next
    case 2
    then have "reach h S x z" by (auto simp: B_def intro: reach_mono)
    moreover have "edge h a x" using out by simp
    ultimately show ?thesis using a by (auto intro: reach.intros)
  next
    case 3
    then have "reach h S y z" by (auto simp: C_def intro: reach_mono)
    moreover have "edge h a y" using out by simp
    ultimately show ?thesis using a by (auto intro: reach.intros)
  qed
  then show "z \<in> {z. reach h S a z}" by simp
qed

subsection \<open>What one call of mark computes\<close>

lemma valid_iff: "valid h p \<longleftrightarrow> (\<exists>a ob. p = Some a \<and> fmlookup h a = Some ob)"
  by (auto simp: valid_def fmlookup_dom_iff split: option.splits)

lemma closed_iff:
  "closed h \<longleftrightarrow>
   (\<forall>a ob. fmlookup h a = Some ob \<longrightarrow> type ob = OBJ_PAIR \<longrightarrow>
      valid h (head ob) \<and> valid h (tail ob))"
  by (simp add: closed_def fmpred_iff)

lemma lookup_set_marks:
  "fmlookup (set_marks X h) a =
     map_option (\<lambda>ob. if a \<in> X \<and> marked ob = 0 then ob\<lparr> marked := 1 \<rparr> else ob) (fmlookup h a)"
  by (simp add: set_marks_def)

lemma set_marks_empty: "set_marks {} h = h"
  by (rule fmap_ext) (simp add: lookup_set_marks option.map_ident)

lemma set_marks_twice: "set_marks Y (set_marks X h) = set_marks (X \<union> Y) h"
proof (rule fmap_ext)
  fix a show "fmlookup (set_marks Y (set_marks X h)) a = fmlookup (set_marks (X \<union> Y) h) a"
    by (cases "fmlookup h a") (auto simp: lookup_set_marks)
qed

lemma set_marks_single:
  "fmlookup h a = Some ob \<Longrightarrow> marked ob = 0 \<Longrightarrow>
   set_marks {a} h = fmupd a (ob\<lparr> marked := 1 \<rparr>) h"
  by (rule fmap_ext) (auto simp: lookup_set_marks option.map_ident)

lemma edge_set_marks: "edge (set_marks X h) = edge h"
  by (intro ext) (auto simp: edge_def lookup_set_marks split: option.splits)

lemma reach_set_marks: "reach (set_marks X h) S = reach h S"
proof (intro ext iffI)
  fix a z assume "reach (set_marks X h) S a z"
  then show "reach h S a z" by (rule reach_cong) (simp add: edge_set_marks)
next
  fix a z assume "reach h S a z"
  then show "reach (set_marks X h) S a z" by (rule reach_cong) (simp add: edge_set_marks)
qed

lemma unmarked_set_marks: "unmarked (set_marks X h) = unmarked h - X"
proof (intro set_eqI)
  fix a show "a \<in> unmarked (set_marks X h) \<longleftrightarrow> a \<in> unmarked h - X"
    by (cases "fmlookup h a") (auto simp: unmarked_def lookup_set_marks)
qed

lemma valid_set_marks: "valid (set_marks X h) p = valid h p"
  by (auto simp: valid_iff lookup_set_marks)

lemma closed_set_marks: "closed (set_marks X h) = closed h"
proof
  assume c: "closed (set_marks X h)"
  show "closed h"
    unfolding closed_iff
  proof (intro allI impI)
    fix a ob assume ob: "fmlookup h a = Some ob" "type ob = OBJ_PAIR"
    define ob' where "ob' = (if a \<in> X \<and> marked ob = 0 then ob\<lparr> marked := 1 \<rparr> else ob)"
    have "fmlookup (set_marks X h) a = Some ob'" "type ob' = OBJ_PAIR"
      "head ob' = head ob" "tail ob' = tail ob"
      using ob by (simp_all add: lookup_set_marks ob'_def)
    with c show "valid h (head ob) \<and> valid h (tail ob)"
      unfolding closed_iff valid_set_marks by metis
  qed
next
  assume c: "closed h"
  show "closed (set_marks X h)"
    unfolding closed_iff valid_set_marks
  proof (intro allI impI)
    fix a ob' assume ob': "fmlookup (set_marks X h) a = Some ob'" "type ob' = OBJ_PAIR"
    then obtain ob where "fmlookup h a = Some ob" "type ob = OBJ_PAIR"
      "head ob' = head ob" "tail ob' = tail ob"
      by (auto simp: lookup_set_marks split: if_splits)
    with c show "valid h (head ob') \<and> valid h (tail ob')"
      unfolding closed_iff by metis
  qed
qed

lemma ureach_marked:
  "fmlookup h a = Some ob \<Longrightarrow> marked ob \<noteq> 0 \<Longrightarrow> ureach h (Some a) = {}"
  using reach_in[of h "unmarked h" a] by (auto simp: ureach_def unmarked_def)

lemma ureach_leaf:
  assumes "fmlookup h a = Some ob" "marked ob = 0" "type ob \<noteq> OBJ_PAIR"
  shows "ureach h (Some a) = {a}"
proof -
  have a: "a \<in> unmarked h" using assms by (simp add: unmarked_def)
  have ne: "\<not> edge h a c" for c using assms by (simp add: edge_def)
  have "z = a" if "reach h (unmarked h) a z" for z
    using that by cases (use ne in auto)
  then show ?thesis using a by (auto simp: ureach_def intro: reach.intros)
qed

lemma ureach_pair:
  assumes ob: "fmlookup h a = Some ob" "marked ob = 0" "type ob = OBJ_PAIR"
    and x: "head ob = Some x" and y: "tail ob = Some y"
  defines "h1 \<equiv> set_marks {a} h"
  defines "h2 \<equiv> set_marks (ureach h1 (Some x)) h1"
  shows "ureach h (Some a) = insert a (ureach h1 (Some x) \<union> ureach h2 (Some y))"
proof -
  have a: "a \<in> unmarked h" using ob by (simp add: unmarked_def)
  have out: "edge h a c \<longleftrightarrow> c = x \<or> c = y" for c
    using ob x y by (auto simp: edge_def)
  have B: "ureach h1 (Some x) = {z. reach h (unmarked h - {a}) x z}"
    by (simp add: ureach_def h1_def reach_set_marks unmarked_set_marks)
  have C: "ureach h2 (Some y) = {z. reach h (unmarked h - {a} - ureach h1 (Some x)) y z}"
    by (simp add: ureach_def h2_def h1_def reach_set_marks unmarked_set_marks)
  show ?thesis
    using reach_unfold[of a "unmarked h" h x y, OF a out]
    unfolding B C by (simp add: ureach_def)
qed

lemma mark_eq:
  "closed h \<Longrightarrow> valid h p \<Longrightarrow> mark h p = Inr (set_marks (ureach h p) h)"
proof (induction h p rule: mark.induct)
  case (1 h object)
  from "1.prems"(2) obtain a ob where a: "object = Some a" "fmlookup h a = Some ob"
    by (auto simp: valid_iff)
  show ?case
  proof (cases "marked ob \<noteq> 0")
    case True
    then show ?thesis using a by (simp add: mark.simps[of h] ureach_marked set_marks_empty)
  next
    case False
    then have m: "marked ob = 0" by simp
    define h1 where "h1 = fmupd a (ob\<lparr>marked := 1\<rparr>) h"
    have h1: "h1 = set_marks {a} h" using a m by (simp add: h1_def set_marks_single)
    show ?thesis
    proof (cases "type ob = OBJ_PAIR")
      case False
      then show ?thesis using a m
        by (simp add: mark.simps[of h] ureach_leaf set_marks_single)
    next
      case True
      from "1.prems"(1) a(2) True have v: "valid h (head ob)" "valid h (tail ob)"
        unfolding closed_iff by blast+
      then obtain x y where xy: "head ob = Some x" "tail ob = Some y"
        by (auto simp: valid_iff)
      have c1: "closed h1" "valid h1 (head ob)"
        using "1.prems"(1) v by (simp_all add: h1 closed_set_marks valid_set_marks)
      define h2 where "h2 = set_marks (ureach h1 (head ob)) h1"
      have s1: "mark h1 (head ob) = Inr h2"
        using "1.IH"(1)[OF a False h1_def True c1] by (simp add: h2_def)
      have c2: "closed h2" "valid h2 (tail ob)"
        using c1(1) v(2) by (simp_all add: h2_def h1 closed_set_marks valid_set_marks)
      obtain ob2 where l2: "fmlookup h2 a = Some ob2" "tail ob2 = tail ob"
        using a(2) by (auto simp: h2_def h1 lookup_set_marks)
      have s2: "mark h2 (tail ob) = Inr (set_marks (ureach h2 (tail ob)) h2)"
        using "1.IH"(2)[OF a False h1_def True s1 l2(1)] c2 by (simp add: l2(2))
      have "mark h object = mark h2 (tail ob)"
        using a m True s1 l2 by (simp add: mark.simps[of h] h1_def[symmetric])
      also have "\<dots> = Inr (set_marks ({a} \<union> ureach h1 (Some x) \<union> ureach h2 (Some y)) h)"
        unfolding s2 by (simp add: h2_def h1 set_marks_twice xy Un_assoc)
      also have "{a} \<union> ureach h1 (Some x) \<union> ureach h2 (Some y) = ureach h (Some a)"
        using ureach_pair[OF a(2) m True xy] by (simp add: h2_def h1 xy)
      finally show ?thesis by (simp add: a)
    qed
  qed
qed

subsection \<open>What markAll computes\<close>

lemma dom_split: "fmdom' h - markedset h = unmarked h"
  by (auto simp: markedset_def unmarked_def fmlookup_dom'_iff)

lemma unmarked_subset_dom: "unmarked h \<subseteq> fmdom' h"
  by (auto simp: unmarked_def fmdom'I)

lemma fmdom'_set_marks: "fmdom' (set_marks X h) = fmdom' h"
  by (auto simp: fmlookup_dom'_iff lookup_set_marks)

lemma reach_snoc: "reach h S a z \<Longrightarrow> edge h z b \<Longrightarrow> b \<in> S \<Longrightarrow> reach h S a b"
proof -
  assume r: "reach h S a z" and e: "edge h z b" and b: "b \<in> S"
  have "z \<in> S" using r reach_in by blast
  then have "reach h S z b" using e b by (auto intro: reach.intros)
  with r show ?thesis by (rule reach_trans)
qed

lemma marks_closed_reach:
  "reach h S w z \<Longrightarrow> marks_closed h \<Longrightarrow> w \<in> markedset h \<Longrightarrow> z \<in> markedset h"
  by (induction rule: reach.induct) (auto simp: marks_closed_def)

lemma edge_target_valid: "closed h \<Longrightarrow> edge h a b \<Longrightarrow> b \<in> fmdom' h"
proof -
  assume c: "closed h" and e: "edge h a b"
  from e obtain ob where ob: "fmlookup h a = Some ob" "type ob = OBJ_PAIR"
    "head ob = Some b \<or> tail ob = Some b"
    by (auto simp: edge_def split: option.splits)
  from c ob(1,2) have "valid h (head ob)" "valid h (tail ob)"
    unfolding closed_iff by blast+
  with ob(3) show ?thesis by (auto simp: valid_iff fmlookup_dom'_iff)
qed

lemma marked_ureach_eq:
  assumes "marks_closed h"
  shows "markedset h \<union> ureach h p = markedset h \<union> reachable_from h p"
proof (cases p)
  case None
  then show ?thesis by (simp add: ureach_def reachable_from_def)
next
  case (Some a)
  have "reach h (fmdom' h) a z" if "reach h (unmarked h) a z" for z
    using that unmarked_subset_dom by (rule reach_mono)
  moreover have "z \<in> markedset h \<or> reach h (unmarked h) a z" if r: "reach h (fmdom' h) a z" for z
  proof -
    from reach_split[OF r, of "markedset h"] show ?thesis
    proof
      assume "reach h (fmdom' h - markedset h) a z"
      then show ?thesis by (simp add: dom_split)
    next
      assume "\<exists>w\<in>markedset h. reach h (fmdom' h) a w \<and> reach h (fmdom' h) w z"
      then show ?thesis using marks_closed_reach[OF _ assms] by blast
    qed
  qed
  ultimately show ?thesis using Some by (auto simp: ureach_def reachable_from_def)
qed

lemma set_marks_cong:
  "markedset h \<union> X = markedset h \<union> Y \<Longrightarrow> set_marks X h = set_marks Y h"
proof (rule fmap_ext)
  fix a assume eq: "markedset h \<union> X = markedset h \<union> Y"
  show "fmlookup (set_marks X h) a = fmlookup (set_marks Y h) a"
  proof (cases "fmlookup h a")
    case None
    then show ?thesis by (simp add: lookup_set_marks)
  next
    case (Some ob)
    show ?thesis
    proof (cases "marked ob = 0")
      case True
      then have "a \<notin> markedset h" using Some by (simp add: markedset_def)
      with eq have "a \<in> X \<longleftrightarrow> a \<in> Y" by blast
      then show ?thesis using Some by (simp add: lookup_set_marks)
    next
      case False
      then show ?thesis using Some by (simp add: lookup_set_marks)
    qed
  qed
qed

lemma mark_reachable:
  assumes "closed h" "marks_closed h" "valid h p"
  shows "mark h p = Inr (set_marks (reachable_from h p) h)"
proof -
  have "set_marks (ureach h p) h = set_marks (reachable_from h p) h"
    using marked_ureach_eq[OF assms(2)] by (rule set_marks_cong)
  then show ?thesis using mark_eq[OF assms(1,3)] by simp
qed

lemma markedset_set_marks: "markedset (set_marks X h) = markedset h \<union> (X \<inter> fmdom' h)"
proof (intro set_eqI)
  fix a show "a \<in> markedset (set_marks X h) \<longleftrightarrow> a \<in> markedset h \<union> (X \<inter> fmdom' h)"
    by (cases "fmlookup h a") (auto simp: markedset_def lookup_set_marks fmlookup_dom'_iff)
qed

lemma reachable_from_set_marks: "reachable_from (set_marks X h) p = reachable_from h p"
  by (cases p) (simp_all add: reachable_from_def reach_set_marks fmdom'_set_marks)

lemma reachable_from_subset: "reachable_from h p \<subseteq> fmdom' h"
  using reach_in by (fastforce simp: reachable_from_def split: option.splits)

lemma marks_closed_step:
  assumes "closed h" "marks_closed h"
  shows "marks_closed (set_marks (reachable_from h p) h)"
  unfolding marks_closed_def
proof (intro allI impI)
  fix a b
  assume a: "a \<in> markedset (set_marks (reachable_from h p) h)"
    and e: "edge (set_marks (reachable_from h p) h) a b"
  from e have e': "edge h a b" by (simp add: edge_set_marks)
  from a consider "a \<in> markedset h" | "a \<in> reachable_from h p"
    by (auto simp: markedset_set_marks)
  then have "b \<in> markedset h \<or> b \<in> reachable_from h p"
  proof cases
    case 1
    then show ?thesis using assms(2) e' by (auto simp: marks_closed_def)
  next
    case 2
    then obtain r where r: "p = Some r" "reach h (fmdom' h) r a"
      by (auto simp: reachable_from_def split: option.splits)
    have "reach h (fmdom' h) r b"
      using r(2) e' edge_target_valid[OF assms(1) e'] by (rule reach_snoc)
    then show ?thesis using r by (simp add: reachable_from_def)
  qed
  then show "b \<in> markedset (set_marks (reachable_from h p) h)"
    using reachable_from_subset[of h p] by (auto simp: markedset_set_marks)
qed

lemma roots_reach_from_unfold:
  "i < stackSize vm \<Longrightarrow>
   roots_reach_from vm i = reachable_from (heap vm) (stack vm i) \<union> roots_reach_from vm (i + 1)"
proof -
  assume "i < stackSize vm"
  then have "{i..<stackSize vm} = insert i {i + 1..<stackSize vm}" by auto
  then show ?thesis by (simp add: roots_reach_from_def)
qed

lemma roots_reach_from_done: "\<not> i < stackSize vm \<Longrightarrow> roots_reach_from vm i = {}"
  by (simp add: roots_reach_from_def)

lemma markAll_from_eq:
  "closed (heap vm) \<Longrightarrow> marks_closed (heap vm) \<Longrightarrow>
   (\<forall>j < stackSize vm. valid (heap vm) (stack vm j)) \<Longrightarrow>
   markAll_from vm i = Inr (vm\<lparr> heap := set_marks (roots_reach_from vm i) (heap vm) \<rparr>)"
proof (induction vm i rule: markAll_from.induct)
  case (1 vm i)
  show ?case
  proof (cases "i < stackSize vm")
    case False
    then show ?thesis
      by (simp add: markAll_from.simps[of vm i] roots_reach_from_done set_marks_empty)
  next
    case True
    define h' where "h' = set_marks (reachable_from (heap vm) (stack vm i)) (heap vm)"
    define vm1 where "vm1 = vm\<lparr> heap := h' \<rparr>"
    have m: "mark (heap vm) (stack vm i) = Inr h'"
      using "1.prems" True by (simp add: h'_def mark_reachable)
    have pre: "closed (heap vm1)" "marks_closed (heap vm1)"
      "\<forall>j < stackSize vm1. valid (heap vm1) (stack vm1 j)"
      using "1.prems" by (simp_all add: vm1_def h'_def closed_set_marks marks_closed_step valid_set_marks)
    have rr: "roots_reach_from vm1 (i + 1) = roots_reach_from vm (i + 1)"
      by (simp add: roots_reach_from_def vm1_def h'_def reachable_from_set_marks)
    have "markAll_from vm i = markAll_from vm1 (i + 1)"
      using True m by (simp add: markAll_from.simps[of vm i] vm1_def)
    also have "\<dots> = Inr (vm1\<lparr> heap := set_marks (roots_reach_from vm1 (i + 1)) (heap vm1) \<rparr>)"
      using "1.IH"[OF True m] pre by (simp add: vm1_def)
    also have "\<dots> = Inr (vm\<lparr> heap := set_marks (roots_reach_from vm i) (heap vm) \<rparr>)"
      using rr by (simp add: vm1_def h'_def set_marks_twice roots_reach_from_unfold[OF True])
    finally show ?thesis .
  qed
qed

lemma markAll_eq:
  "closed (heap vm) \<Longrightarrow> marks_closed (heap vm) \<Longrightarrow>
   (\<forall>j < stackSize vm. valid (heap vm) (stack vm j)) \<Longrightarrow>
   markAll vm = Inr (vm\<lparr> heap := set_marks (roots_reach vm) (heap vm) \<rparr>)"
  by (simp add: markAll_def roots_reach_def markAll_from_eq)

subsection \<open>The loop of sweep\<close>

lemma is_list_cong:
  "(\<And>a. a \<in> set as \<Longrightarrow> map_option next (fmlookup h' a) = map_option next (fmlookup h a)) \<Longrightarrow>
   is_list h' p as = is_list h p as"
proof (induction as arbitrary: p)
  case Nil
  then show ?case by simp
next
  case (Cons a as)
  have "map_option next (fmlookup h' a) = map_option next (fmlookup h a)"
    using Cons.prems by simp
  moreover have "is_list h' q as = is_list h q as" for q
    using Cons.prems by (intro Cons.IH) simp
  ultimately show ?case
    by (cases "fmlookup h a"; cases "fmlookup h' a") auto
qed

lemma filter_cong_set: "(\<And>a. a \<in> set as \<Longrightarrow> P a = Q a) \<Longrightarrow> filter P as = filter Q as"
  by (induction as) auto

lemma swept_dom:
  "swept vm r bs vm' \<Longrightarrow> fmdom' (heap vm') = fmdom' (heap vm) - (set bs \<inter> unmarked (heap vm))"
  by (simp add: swept_def)

lemma swept_list:
  "swept vm r bs vm' \<Longrightarrow>
   \<exists>p'. load vm' r = Inr p' \<and> is_list (heap vm') p' (filter (\<lambda>a. a \<in> markedset (heap vm)) bs)"
  by (simp add: swept_def)

lemma swept_count:
  "swept vm r bs vm' \<Longrightarrow>
   numObjects vm' = numObjects vm - of_nat (length (filter (\<lambda>a. a \<in> unmarked (heap vm)) bs))"
  by (simp add: swept_def)

lemma swept_frame:
  "swept vm r bs vm' \<Longrightarrow>
   stack vm' = stack vm \<and> stackSize vm' = stackSize vm \<and> maxObjects vm' = maxObjects vm \<and>
   stdout vm' = stdout vm \<and>
   (r \<noteq> FirstObjectOf \<longrightarrow> firstObject vm' = firstObject vm)"
  by (simp add: swept_def)

lemma swept_object:
  "swept vm r bs vm' \<Longrightarrow> fmlookup (heap vm) a = Some ob \<Longrightarrow> fmlookup (heap vm') a = Some ob' \<Longrightarrow>
   same_payload ob ob' \<and> marked ob' = (if a \<in> set bs then 0 else marked ob) \<and>
   (a \<notin> set bs \<longrightarrow> r \<noteq> NextOf a \<longrightarrow> next ob' = next ob)"
  unfolding swept_def by blast

lemma sweep_loop_swept:
  "load vm r = Inr p \<Longrightarrow> is_list (heap vm) p bs \<Longrightarrow> distinct bs \<Longrightarrow>
   (\<And>b. r = NextOf b \<Longrightarrow> b \<notin> set bs) \<Longrightarrow>
   \<exists>vm'. sweep_loop vm r = Inr vm' \<and> swept vm r bs vm'"
proof (induction bs arbitrary: vm r p)
  case Nil
  then have "sweep_loop vm r = Inr vm" by (simp add: sweep_loop.simps[of vm r])
  moreover have "swept vm r [] vm" using Nil by (simp add: swept_def same_payload_def)
  ultimately show ?case by blast
next
  case (Cons a bs)
  from Cons.prems(2) obtain ob where p: "p = Some a" and ob: "fmlookup (heap vm) a = Some ob"
    and rest: "is_list (heap vm) (next ob) bs"
    by (auto split: option.splits)
  from Cons.prems(3) have a_notin: "a \<notin> set bs" and dist: "distinct bs" by simp_all
  have r_notin: "r \<noteq> NextOf c" if "c \<in> set bs \<or> c = a" for c
    using Cons.prems(4)[of c] that by auto
  show ?case
  proof (cases "marked ob = 0")
    case True
    obtain vm1 where st: "store vm r (next ob) = Inr vm1"
      using Cons.prems(1) by (cases r) (auto split: option.splits)
    define vm2 where "vm2 = vm1\<lparr> heap := fmdrop a (heap vm1), numObjects := numObjects vm1 - 1 \<rparr>"
    have step: "sweep_loop vm r = sweep_loop vm2 r"
      using Cons.prems(1) p ob True st by (simp add: sweep_loop.simps[of vm r] vm2_def)
    have ld: "load vm2 r = Inr (next ob)"
      using st r_notin[of a] by (cases r) (auto simp: vm2_def split: option.splits)
    have look: "fmlookup (heap vm2) c =
        (if c = a then None
         else if r = NextOf c then map_option (\<lambda>x. x\<lparr> next := next ob \<rparr>) (fmlookup (heap vm) c)
         else fmlookup (heap vm) c)" for c
      using st by (cases r) (auto simp: vm2_def split: option.splits)
    have frame: "stack vm2 = stack vm" "stackSize vm2 = stackSize vm" "maxObjects vm2 = maxObjects vm"
      "numObjects vm2 = numObjects vm - 1" "stdout vm2 = stdout vm"
      "r \<noteq> FirstObjectOf \<Longrightarrow> firstObject vm2 = firstObject vm"
      using st by (cases r; auto simp: vm2_def split: option.splits)+
    have same: "fmlookup (heap vm2) c = fmlookup (heap vm) c" if "c \<in> set bs" for c
      using that a_notin r_notin[of c] by (auto simp: look)
    have dom2: "fmdom' (heap vm2) = fmdom' (heap vm) - {a}"
      by (auto simp: fmlookup_dom'_iff look split: if_splits)
    have "is_list (heap vm2) (next ob) bs = is_list (heap vm) (next ob) bs"
      by (intro is_list_cong) (simp add: same)
    with rest have rest2: "is_list (heap vm2) (next ob) bs" by simp
    from Cons.IH[OF ld rest2 dist] Cons.prems(4)
    obtain vm' where res: "sweep_loop vm2 r = Inr vm'" and sw: "swept vm2 r bs vm'"
      by auto
    have mk: "filter (\<lambda>c. c \<in> markedset (heap vm2)) bs = filter (\<lambda>c. c \<in> markedset (heap vm)) bs"
      by (rule filter_cong_set) (simp add: markedset_def same)
    have um: "filter (\<lambda>c. c \<in> unmarked (heap vm2)) bs = filter (\<lambda>c. c \<in> unmarked (heap vm)) bs"
      by (rule filter_cong_set) (simp add: unmarked_def same)
    have ums: "set bs \<inter> unmarked (heap vm2) = set bs \<inter> unmarked (heap vm)"
      by (auto simp: unmarked_def same)
    have a_un: "a \<in> unmarked (heap vm)" "a \<notin> markedset (heap vm)"
      using ob True by (simp_all add: unmarked_def markedset_def)
    have "swept vm r (a # bs) vm'"
      unfolding swept_def
    proof (intro conjI allI impI)
      show "\<exists>p'. load vm' r = Inr p' \<and>
          is_list (heap vm') p' (filter (\<lambda>a. a \<in> markedset (heap vm)) (a # bs))"
        using swept_list[OF sw] a_un by (simp add: mk)
      show "fmdom' (heap vm') = fmdom' (heap vm) - (set (a # bs) \<inter> unmarked (heap vm))"
        using swept_dom[OF sw] a_un ums by (auto simp: dom2)
      show "numObjects vm' =
          numObjects vm - of_nat (length (filter (\<lambda>a. a \<in> unmarked (heap vm)) (a # bs)))"
        using swept_count[OF sw] a_un by (simp add: um frame)
      show "stack vm' = stack vm" "stackSize vm' = stackSize vm" "maxObjects vm' = maxObjects vm"
        "stdout vm' = stdout vm"
        using swept_frame[OF sw] by (simp_all add: frame)
      show "firstObject vm' = firstObject vm" if "r \<noteq> FirstObjectOf"
        using swept_frame[OF sw] that by (simp add: frame)
    next
      fix c oc oc'
      assume c: "fmlookup (heap vm) c = Some oc" "fmlookup (heap vm') c = Some oc'"
      from fmdom'I[OF c(2)] have "c \<in> fmdom' (heap vm2)" by (simp add: swept_dom[OF sw])
      then have ca: "c \<noteq> a" by (simp add: dom2)
      define oc2 where "oc2 = (if r = NextOf c then oc\<lparr> next := next ob \<rparr> else oc)"
      have l2: "fmlookup (heap vm2) c = Some oc2" using c(1) ca by (simp add: look oc2_def)
      from swept_object[OF sw l2 c(2)] have k: "same_payload oc2 oc'"
        "marked oc' = (if c \<in> set bs then 0 else marked oc2)"
        "c \<notin> set bs \<Longrightarrow> r \<noteq> NextOf c \<Longrightarrow> next oc' = next oc2"
        by simp_all
      show "same_payload oc oc'" using k(1) by (simp add: same_payload_def oc2_def split: if_splits)
      show "marked oc' = (if c \<in> set (a # bs) then 0 else marked oc)"
        using k(2) ca by (simp add: oc2_def split: if_splits)
      show "next oc' = next oc" if "c \<notin> set (a # bs)" "r \<noteq> NextOf c"
        using k(3) that by (simp add: oc2_def)
    qed
    with step res show ?thesis by auto
  next
    case False
    define vm1 where "vm1 = vm\<lparr> heap := fmupd a (ob\<lparr> marked := 0 \<rparr>) (heap vm) \<rparr>"
    have step: "sweep_loop vm r = sweep_loop vm1 (NextOf a)"
      using Cons.prems(1) p ob False by (simp add: sweep_loop.simps[of vm r] vm1_def)
    have ld: "load vm1 (NextOf a) = Inr (next ob)" by (simp add: vm1_def)
    have same: "fmlookup (heap vm1) c = fmlookup (heap vm) c" if "c \<noteq> a" for c
      using that by (simp add: vm1_def)
    have la: "fmlookup (heap vm1) a = Some (ob\<lparr> marked := 0 \<rparr>)" by (simp add: vm1_def)
    have frame1: "stack vm1 = stack vm" "stackSize vm1 = stackSize vm"
      "maxObjects vm1 = maxObjects vm" "numObjects vm1 = numObjects vm"
      "firstObject vm1 = firstObject vm" "stdout vm1 = stdout vm"
      by (simp_all add: vm1_def)
    have same': "fmlookup (heap vm1) c = fmlookup (heap vm) c" if "c \<in> set bs" for c
      using that a_notin by (auto simp: vm1_def)
    have "is_list (heap vm1) (next ob) bs = is_list (heap vm) (next ob) bs"
    proof (rule is_list_cong)
      fix c assume "c \<in> set bs"
      then have "c \<noteq> a" using a_notin by auto
      then show "map_option next (fmlookup (heap vm1) c) = map_option next (fmlookup (heap vm) c)"
        by (simp add: same)
    qed
    with rest have rest1: "is_list (heap vm1) (next ob) bs" by simp
    from Cons.IH[OF ld rest1 dist] a_notin
    obtain vm' where res: "sweep_loop vm1 (NextOf a) = Inr vm'"
      and sw: "swept vm1 (NextOf a) bs vm'"
      by auto
    have dom1: "fmdom' (heap vm1) = fmdom' (heap vm)"
      using ob by (auto simp: vm1_def fmlookup_dom'_iff)
    have mk: "filter (\<lambda>c. c \<in> markedset (heap vm1)) bs = filter (\<lambda>c. c \<in> markedset (heap vm)) bs"
      by (rule filter_cong_set) (simp add: markedset_def same')
    have um: "filter (\<lambda>c. c \<in> unmarked (heap vm1)) bs = filter (\<lambda>c. c \<in> unmarked (heap vm)) bs"
      by (rule filter_cong_set) (simp add: unmarked_def same')
    have ums: "set bs \<inter> unmarked (heap vm1) = set bs \<inter> unmarked (heap vm)"
      by (auto simp: unmarked_def same')
    have a_mk: "a \<notin> unmarked (heap vm)" "a \<in> markedset (heap vm)"
      using ob False by (simp_all add: unmarked_def markedset_def)
    from swept_list[OF sw] obtain p' where p': "load vm' (NextOf a) = Inr p'"
      "is_list (heap vm') p' (filter (\<lambda>c. c \<in> markedset (heap vm)) bs)"
      by (auto simp: mk)
    from p'(1) obtain oa' where oa': "fmlookup (heap vm') a = Some oa'" "next oa' = p'"
      by (auto split: option.splits)
    have dom': "fmdom' (heap vm') = fmdom' (heap vm) - (set bs \<inter> unmarked (heap vm))"
      using swept_dom[OF sw] by (simp add: dom1 ums)
    have pay: "same_payload oc1 oc' \<and> marked oc' = (if c \<in> set bs then 0 else marked oc1) \<and>
        (c \<notin> set bs \<longrightarrow> c \<noteq> a \<longrightarrow> next oc' = next oc1)"
      if "fmlookup (heap vm1) c = Some oc1" "fmlookup (heap vm') c = Some oc'" for c oc1 oc'
      using swept_object[OF sw that] by simp
    have ldr: "load vm' r = Inr (Some a)"
    proof (cases r)
      case FirstObjectOf
      then show ?thesis using swept_frame[OF sw] Cons.prems(1) p by (simp add: frame1)
    next
      case (NextOf b)
      with Cons.prems(1) p obtain obb where obb: "fmlookup (heap vm) b = Some obb" "next obb = Some a"
        by (auto split: option.splits)
      have b: "b \<noteq> a" "b \<notin> set bs" using r_notin[of b] NextOf by auto
      then have "b \<in> fmdom' (heap vm')" using obb(1) by (auto simp: dom' fmlookup_dom'_iff)
      then obtain obb' where obb': "fmlookup (heap vm') b = Some obb'"
        by (auto simp: fmlookup_dom'_iff)
      have "fmlookup (heap vm1) b = Some obb" using obb(1) b(1) by (simp add: same)
      from pay[OF this obb'] b have "next obb' = next obb" by simp
      then show ?thesis using NextOf obb' obb(2) by simp
    qed
    have "swept vm r (a # bs) vm'"
      unfolding swept_def
    proof (intro conjI allI impI)
      show "\<exists>p'. load vm' r = Inr p' \<and>
          is_list (heap vm') p' (filter (\<lambda>a. a \<in> markedset (heap vm)) (a # bs))"
        using ldr a_mk oa' p'(2) by simp
      show "fmdom' (heap vm') = fmdom' (heap vm) - (set (a # bs) \<inter> unmarked (heap vm))"
        using dom' a_mk by auto
      show "numObjects vm' =
          numObjects vm - of_nat (length (filter (\<lambda>a. a \<in> unmarked (heap vm)) (a # bs)))"
        using swept_count[OF sw] a_mk by (simp add: um frame1)
      show "stack vm' = stack vm" "stackSize vm' = stackSize vm" "maxObjects vm' = maxObjects vm"
        "stdout vm' = stdout vm"
        using swept_frame[OF sw] by (simp_all add: frame1)
      show "firstObject vm' = firstObject vm" if "r \<noteq> FirstObjectOf"
        using swept_frame[OF sw] by (simp add: frame1)
    next
      fix c oc oc'
      assume c: "fmlookup (heap vm) c = Some oc" "fmlookup (heap vm') c = Some oc'"
      define oc1 where "oc1 = (if c = a then ob\<lparr> marked := 0 \<rparr> else oc)"
      have l1: "fmlookup (heap vm1) c = Some oc1" using c(1) by (simp add: vm1_def oc1_def)
      have oeq: "c = a \<Longrightarrow> oc = ob" using c(1) ob by simp
      note k = pay[OF l1 c(2)]
      show "same_payload oc oc'"
        using k oeq by (auto simp: same_payload_def oc1_def split: if_splits)
      show "marked oc' = (if c \<in> set (a # bs) then 0 else marked oc)"
        using k by (auto simp: oc1_def split: if_splits)
      show "next oc' = next oc" if "c \<notin> set (a # bs)" "r \<noteq> NextOf c"
        using k that by (simp add: oc1_def)
    qed
    with step res show ?thesis by auto
  qed
qed

subsection \<open>The registry list\<close>

lemma is_list_unique: "is_list h p as \<Longrightarrow> is_list h p bs \<Longrightarrow> as = bs"
proof (induction as arbitrary: p bs)
  case Nil
  then show ?case by (cases bs) auto
next
  case (Cons a as)
  then show ?case by (cases bs) (auto split: option.splits)
qed

lemma is_list_suffix: "is_list h p (xs @ ys) \<Longrightarrow> \<exists>q. is_list h q ys"
  by (induction xs arbitrary: p) (auto split: option.splits)

lemma is_list_distinct: "is_list h p as \<Longrightarrow> distinct as"
proof (induction as arbitrary: p)
  case Nil
  then show ?case by simp
next
  case (Cons a as)
  from Cons.prems obtain ob where ob: "fmlookup h a = Some ob" "is_list h (next ob) as"
    by (auto split: option.splits)
  have "a \<notin> set as"
  proof
    assume "a \<in> set as"
    then obtain xs ys where as: "as = xs @ a # ys" by (auto dest: split_list)
    with ob(2) obtain q where "is_list h q (a # ys)" using is_list_suffix by blast
    then have "is_list h (next ob) ys" using ob(1) by simp
    with ob(2) have "as = ys" by (rule is_list_unique)
    with as show False by simp
  qed
  moreover have "distinct as" using ob(2) by (rule Cons.IH)
  ultimately show ?case by simp
qed

lemma object_eqI:
  "same_payload ob ob' \<Longrightarrow> marked ob' = marked ob \<Longrightarrow> next ob' = next ob \<Longrightarrow> ob' = ob"
  by (cases ob; cases ob') (simp add: same_payload_def)

lemma closed_cyclic_heap: "closed cyclic_heap" "closed cyclic_heap_marked"
  by (auto simp: closed_iff valid_iff cyclic_heap_def cyclic_heap_marked_def split: if_splits)

lemma mark_cyclic_heap: "mark cyclic_heap (Some 0) = Inr cyclic_heap_marked"
proof -
  have "\<exists>h'. mark cyclic_heap (Some 0) = Inr h' \<and>
      (\<forall>a. fmlookup h' a = fmlookup cyclic_heap_marked a)"
    by (simp add: mark.simps cyclic_heap_def cyclic_heap_marked_def)
  then obtain h' where h': "mark cyclic_heap (Some 0) = Inr h'"
    "\<And>a. fmlookup h' a = fmlookup cyclic_heap_marked a"
    by blast
  from h'(2) have "h' = cyclic_heap_marked" by (rule fmap_ext)
  with h'(1) show ?thesis by simp
qed

lemma markedset_cyclic_heap:
  "markedset cyclic_heap = {}" "markedset cyclic_heap_marked = {0, 1, 2}"
  by (auto simp: markedset_def cyclic_heap_def cyclic_heap_marked_def split: if_splits)

lemma sweep_swept:
  assumes "is_list (heap vm) (firstObject vm) as"
  shows "\<exists>vm'. sweep vm = Inr vm' \<and> swept vm FirstObjectOf as vm'"
proof -
  have ld: "load vm FirstObjectOf = Inr (firstObject vm)" by simp
  from sweep_loop_swept[OF ld assms is_list_distinct[OF assms]]
  show ?thesis by (auto simp: sweep_def)
qed

lemma swept_kept:
  assumes sw: "swept vm r as vm'"
    and a: "a \<in> set as" "fmlookup (heap vm) a = Some ob" "marked ob \<noteq> 0"
  shows "\<exists>ob'. fmlookup (heap vm') a = Some ob' \<and> marked ob' = 0 \<and> same_payload ob ob'"
proof -
  have "a \<in> fmdom' (heap vm')"
    using a by (auto simp: swept_dom[OF sw] unmarked_def fmlookup_dom'_iff)
  then obtain ob' where ob': "fmlookup (heap vm') a = Some ob'" by (auto simp: fmlookup_dom'_iff)
  from swept_object[OF sw a(2) ob'] a(1) ob' show ?thesis by simp
qed

lemma swept_other:
  assumes sw: "swept vm FirstObjectOf as vm'" and a: "a \<notin> set as"
  shows "fmlookup (heap vm') a = fmlookup (heap vm) a"
proof (cases "fmlookup (heap vm) a")
  case None
  then have "a \<notin> fmdom' (heap vm')" by (auto simp: swept_dom[OF sw] fmlookup_dom'_iff)
  then show ?thesis using None by (simp add: fmlookup_dom'_iff)
next
  case (Some ob)
  then have "a \<in> fmdom' (heap vm')" using a by (auto simp: swept_dom[OF sw] fmlookup_dom'_iff)
  then obtain ob' where ob': "fmlookup (heap vm') a = Some ob'" by (auto simp: fmlookup_dom'_iff)
  from swept_object[OF sw Some ob'] a have "ob' = ob" by (simp add: object_eqI)
  then show ?thesis using Some ob' by simp
qed

subsection \<open>The registry example\<close>

lemma sweep_sweep_example:
  "\<exists>vm'. sweep sweep_example = Inr vm' \<and> numObjects vm' = 2 \<and> firstObject vm' = Some 2 \<and>
     map (\<lambda>a. map_option (\<lambda>ob. (next ob, marked ob)) (fmlookup (heap vm') a)) [0, 1, 2] =
       [Some (None, 0), None, Some (Some 0, 0)]"
  by (simp add: sweep_def sweep_loop.simps sweep_example_def)

subsection \<open>The collection cycle\<close>

lemma roots_reach_subset: "roots_reach vm \<subseteq> fmdom' (heap vm)"
  using reachable_from_subset by (fastforce simp: roots_reach_def roots_reach_from_def)

lemma roots_reach_iff:
  "z \<in> roots_reach vm \<longleftrightarrow>
   (\<exists>j r. j < stackSize vm \<and> stack vm j = Some r \<and> reach (heap vm) (fmdom' (heap vm)) r z)"
  by (auto simp: roots_reach_def roots_reach_from_def reachable_from_def split: option.splits)

lemma roots_reach_edge:
  assumes "closed (heap vm)" "a \<in> roots_reach vm" "edge (heap vm) a b"
  shows "b \<in> roots_reach vm"
proof -
  from assms(2) obtain j r where r: "j < stackSize vm" "stack vm j = Some r"
    "reach (heap vm) (fmdom' (heap vm)) r a"
    by (auto simp: roots_reach_iff)
  have "reach (heap vm) (fmdom' (heap vm)) r b"
    using r(3) assms(3) edge_target_valid[OF assms(1,3)] by (rule reach_snoc)
  with r show ?thesis by (auto simp: roots_reach_iff)
qed

lemma roots_in_reach:
  assumes "valid (heap vm) (stack vm j)" "j < stackSize vm"
  shows "\<exists>r. stack vm j = Some r \<and> r \<in> roots_reach vm"
proof -
  from assms(1) obtain r where r: "stack vm j = Some r" "r \<in> fmdom' (heap vm)"
    by (auto simp: valid_iff fmlookup_dom'_iff)
  then have "reach (heap vm) (fmdom' (heap vm)) r r" by (auto intro: reach.intros)
  with r(1) assms(2) show ?thesis unfolding roots_reach_iff by blast
qed

lemma is_list_set_marks: "is_list (set_marks X h) p as = is_list h p as"
proof (rule is_list_cong)
  fix a show "map_option next (fmlookup (set_marks X h) a) = map_option next (fmlookup h a)"
    by (cases "fmlookup h a") (simp_all add: lookup_set_marks)
qed

lemma length_filter_split:
  "(of_nat (length as) :: 32 word) - of_nat (length (filter (\<lambda>a. \<not> P a) as)) =
   of_nat (length (filter P as))"
proof -
  have "length as = length (filter P as) + length (filter (\<lambda>a. \<not> P a) as)"
    by (simp add: sum_length_filter_compl)
  then have "(of_nat (length as) :: 32 word) =
      of_nat (length (filter P as)) + of_nat (length (filter (\<lambda>a. \<not> P a) as))"
    by (metis of_nat_add)
  then show ?thesis by simp
qed

lemma gc_spec:
  assumes wf: "wf_vm vm"
  shows "\<exists>vm'. gc vm = Inr vm' \<and> wf_vm vm' \<and>
           fmdom' (heap vm') = roots_reach vm \<and>
           roots_reach vm' = fmdom' (heap vm') \<and>
           (\<forall>a ob. a \<in> roots_reach vm \<longrightarrow> fmlookup (heap vm) a = Some ob \<longrightarrow>
              (\<exists>ob'. fmlookup (heap vm') a = Some ob' \<and> same_payload ob ob')) \<and>
           (\<forall>as. is_list (heap vm) (firstObject vm) as \<longrightarrow>
              is_list (heap vm') (firstObject vm') (filter (\<lambda>a. a \<in> roots_reach vm) as) \<and>
              numObjects vm' = of_nat (length (filter (\<lambda>a. a \<in> roots_reach vm) as))) \<and>
           maxObjects vm' = numObjects vm' * 2 \<and>
           stack vm' = stack vm \<and> stackSize vm' = stackSize vm \<and> stdout vm' = stdout vm"
proof -
  define h where "h = heap vm"
  define R where "R = roots_reach vm"
  from wf obtain as where as: "is_list h (firstObject vm) as" "set as = fmdom' h"
    "numObjects vm = of_nat (length as)"
    and nomark: "markedset h = {}" and cl: "closed h"
    and roots: "\<And>j. j < stackSize vm \<Longrightarrow> valid h (stack vm j)"
    and size: "stackSize vm \<le> STACK_MAX"
    unfolding wf_vm_def h_def by blast
  have Rsub: "R \<subseteq> fmdom' h" unfolding R_def h_def by (rule roots_reach_subset)
  have allun: "unmarked h = fmdom' h"
    using dom_split[of h] nomark by simp
  \<comment> \<open>the mark phase\<close>
  define vm1 where "vm1 = vm\<lparr> heap := set_marks R h \<rparr>"
  have mc: "marks_closed h" using nomark by (simp add: marks_closed_def)
  have m: "markAll vm = Inr vm1"
    using markAll_eq[of vm] cl mc roots by (simp add: vm1_def h_def R_def)
  have h1: "heap vm1 = set_marks R h" by (simp add: vm1_def)
  have mk1: "markedset (heap vm1) = R"
    using Rsub nomark by (auto simp: h1 markedset_set_marks)
  have un1: "unmarked (heap vm1) = fmdom' h - R"
    by (simp add: h1 unmarked_set_marks allun)
  have l1: "is_list (heap vm1) (firstObject vm1) as"
    using as(1) by (simp add: vm1_def is_list_set_marks)
  \<comment> \<open>the sweep phase\<close>
  from sweep_swept[OF l1] obtain vm2 where s: "sweep vm1 = Inr vm2"
    and sw: "swept vm1 FirstObjectOf as vm2"
    by blast
  have l2: "is_list (heap vm2) (firstObject vm2) (filter (\<lambda>a. a \<in> R) as)"
    using swept_list[OF sw] by (simp add: mk1)
  have d2raw: "fmdom' (heap vm2) = fmdom' (heap vm1) - (set as \<inter> (fmdom' h - R))"
    using swept_dom[OF sw] by (simp add: un1)
  have n2raw: "numObjects vm2 =
      numObjects vm1 - of_nat (length (filter (\<lambda>a. a \<in> fmdom' h - R) as))"
    using swept_count[OF sw] by (simp add: un1)
  have fr: "stack vm2 = stack vm1" "stackSize vm2 = stackSize vm1" "stdout vm2 = stdout vm1"
    using swept_frame[OF sw] by simp_all
  have d2: "fmdom' (heap vm2) = R"
    unfolding d2raw using as(2) Rsub by (auto simp: h1 fmdom'_set_marks)
  have "filter (\<lambda>a. a \<in> fmdom' h - R) as = filter (\<lambda>a. a \<notin> R) as"
    using as(2) by (intro filter_cong_set) auto
  with n2raw have n2: "numObjects vm2 =
      numObjects vm1 - of_nat (length (filter (\<lambda>a. a \<notin> R) as))"
    by simp
  define vm' where "vm' = vm2\<lparr> maxObjects := numObjects vm2 * 2 \<rparr>"
  have g: "gc vm = Inr vm'" by (simp add: gc_def m s vm'_def)
  have hv: "heap vm' = heap vm2" "firstObject vm' = firstObject vm2"
    "numObjects vm' = numObjects vm2" "stack vm' = stack vm" "stackSize vm' = stackSize vm"
    "maxObjects vm' = numObjects vm' * 2" "stdout vm' = stdout vm"
    by (simp_all add: vm'_def fr vm1_def)
  \<comment> \<open>what became of the objects reached\<close>
  have obj: "\<exists>ob'. fmlookup (heap vm2) a = Some ob' \<and> marked ob' = 0 \<and> same_payload ob ob'"
    if "a \<in> R" "fmlookup h a = Some ob" for a ob
  proof -
    have z: "marked ob = 0" using nomark that(2) by (auto simp: markedset_def)
    have l: "fmlookup (heap vm1) a = Some (ob\<lparr> marked := 1 \<rparr>)"
      using that z by (simp add: h1 lookup_set_marks)
    have i: "a \<in> set as" using that Rsub as(2) by auto
    have nz: "marked (ob\<lparr> marked := 1 \<rparr>) \<noteq> 0" by simp
    from swept_kept[OF sw i l nz] show ?thesis by (auto simp: same_payload_def)
  qed
  have orig: "\<exists>ob. fmlookup h a = Some ob \<and> marked ob' = 0 \<and> same_payload ob ob'"
    if "fmlookup (heap vm2) a = Some ob'" for a ob'
  proof -
    have aR: "a \<in> R" using that d2 by (auto simp: fmlookup_dom'_iff)
    then obtain ob where "fmlookup h a = Some ob" using Rsub by (metis fmlookup_dom'_iff subsetD)
    with obj[OF aR this] that show ?thesis by auto
  qed
  \<comment> \<open>the invariant holds again\<close>
  have cnt: "numObjects vm2 = of_nat (length (filter (\<lambda>a. a \<in> R) as))"
    unfolding n2 using as(3) length_filter_split[of as "\<lambda>a. a \<in> R"] by (simp add: vm1_def)
  have reg: "is_list (heap vm') (firstObject vm') (filter (\<lambda>a. a \<in> R) bs) \<and>
      numObjects vm' = of_nat (length (filter (\<lambda>a. a \<in> R) bs))"
    if "is_list h (firstObject vm) bs" for bs
  proof -
    have "bs = as" using that as(1) by (rule is_list_unique)
    then show ?thesis using l2 cnt by (simp add: vm'_def)
  qed
  note cnt
  moreover have "set (filter (\<lambda>a. a \<in> R) as) = fmdom' (heap vm2)"
    using as(2) Rsub d2 by auto
  ultimately have ledger: "\<exists>as. is_list (heap vm') (firstObject vm') as \<and>
      set as = fmdom' (heap vm') \<and> numObjects vm' = of_nat (length as)"
    using l2 unfolding hv by blast
  have nomark': "markedset (heap vm') = {}"
    using orig by (fastforce simp: hv markedset_def)
  have cl': "closed (heap vm')"
    unfolding closed_iff hv
  proof (intro allI impI)
    fix a ob' assume ob': "fmlookup (heap vm2) a = Some ob'" "type ob' = OBJ_PAIR"
    from orig[OF ob'(1)] obtain ob where ob: "fmlookup h a = Some ob" "same_payload ob ob'"
      by blast
    have aR: "a \<in> R" using ob'(1) d2 by (auto simp: fmlookup_dom'_iff)
    have ty: "type ob = OBJ_PAIR" "head ob' = head ob" "tail ob' = tail ob"
      using ob(2) ob'(2) by (simp_all add: same_payload_def)
    from cl ob(1) ty(1) have "valid h (head ob)" "valid h (tail ob)"
      unfolding closed_iff by blast+
    then obtain x y where xy: "head ob = Some x" "tail ob = Some y" by (auto simp: valid_iff)
    have "edge h a x" "edge h a y" using ob(1) ty(1) xy by (simp_all add: edge_def)
    then have "x \<in> R" "y \<in> R"
      using roots_reach_edge[of vm a] cl aR unfolding R_def h_def by blast+
    then show "valid (heap vm2) (head ob') \<and> valid (heap vm2) (tail ob')"
      using d2 xy ty by (auto simp: valid_iff fmlookup_dom'_iff)
  qed
  have roots': "valid (heap vm') (stack vm' j)" if "j < stackSize vm'" for j
  proof -
    have j: "j < stackSize vm" using that by (simp add: hv)
    from roots_in_reach[of vm j] roots[OF j] j obtain r where
      "stack vm j = Some r" "r \<in> R" unfolding R_def h_def by blast
    then show ?thesis using d2 by (auto simp: hv valid_iff fmlookup_dom'_iff)
  qed
  have wf': "wf_vm vm'"
    unfolding wf_vm_def using ledger nomark' cl' roots' size by (simp add: hv)
  \<comment> \<open>every object left is reachable from the stack\<close>
  have "z \<in> roots_reach vm'" if "z \<in> R" for z
  proof -
    from that obtain j r where r: "j < stackSize vm" "stack vm j = Some r"
      "reach h (fmdom' h) r z"
      unfolding R_def h_def roots_reach_iff by blast
    have "reach h (fmdom' h \<inter> R) r z"
      using r(3)
    proof (rule reach_within)
      fix w assume "reach h (fmdom' h) r w"
      with r(1,2) show "w \<in> R" unfolding R_def h_def roots_reach_iff by blast
    qed
    then have "reach h R r z" using Rsub by (simp add: Int_absorb1)
    then have "reach (heap vm2) R r z"
    proof (rule reach_cong)
      fix x y assume x: "x \<in> R" and e: "edge h x y"
      from e obtain ob where ob: "fmlookup h x = Some ob" "type ob = OBJ_PAIR"
        "head ob = Some y \<or> tail ob = Some y"
        by (auto simp: edge_def split: option.splits)
      from obj[OF x ob(1)] obtain ob' where "fmlookup (heap vm2) x = Some ob'" "same_payload ob ob'"
        by blast
      with ob(2,3) show "edge (heap vm2) x y" by (auto simp: edge_def same_payload_def)
    qed
    with r(1,2) show ?thesis unfolding roots_reach_iff hv d2 by blast
  qed
  then have full: "roots_reach vm' = fmdom' (heap vm')"
    using roots_reach_subset[of vm'] by (auto simp: hv d2)
  have pres: "\<exists>ob'. fmlookup (heap vm') a = Some ob' \<and> same_payload ob ob'"
    if "a \<in> roots_reach vm" "fmlookup (heap vm) a = Some ob" for a ob
    using obj[of a ob] that by (auto simp: R_def h_def hv)
  show ?thesis
    using g wf' full pres hv d2 reg unfolding R_def h_def by auto
qed

subsection \<open>A collection after a collection\<close>

lemma is_list_head: "is_list h p as \<Longrightarrow> p = (case as of [] \<Rightarrow> None | a # _ \<Rightarrow> Some a)"
  by (cases as) auto

lemma is_list_next_eq:
  "is_list h p as \<Longrightarrow> is_list h' p' as \<Longrightarrow> c \<in> set as \<Longrightarrow>
   fmlookup h c = Some ob \<Longrightarrow> fmlookup h' c = Some ob' \<Longrightarrow> next ob = next ob'"
proof (induction as arbitrary: p p')
  case Nil
  then show ?case by simp
next
  case (Cons a as)
  from Cons.prems(1) obtain oa where oa: "fmlookup h a = Some oa" "is_list h (next oa) as"
    by (auto split: option.splits)
  from Cons.prems(2) obtain oa' where oa': "fmlookup h' a = Some oa'" "is_list h' (next oa') as"
    by (auto split: option.splits)
  show ?case
  proof (cases "c = a")
    case True
    then have "ob = oa" "ob' = oa'" using Cons.prems(4,5) oa(1) oa'(1) by simp_all
    then show ?thesis using is_list_head[OF oa(2)] is_list_head[OF oa'(2)] by simp
  next
    case False
    then have "c \<in> set as" using Cons.prems(3) by simp
    from Cons.IH[OF oa(2) oa'(2) this Cons.prems(4,5)] show ?thesis .
  qed
qed

lemma gc_idem:
  assumes wf: "wf_vm vm" and full: "roots_reach vm = fmdom' (heap vm)"
  shows "gc vm = Inr (vm\<lparr> maxObjects := numObjects vm * 2 \<rparr>)"
proof -
  from wf obtain as where as: "is_list (heap vm) (firstObject vm) as" "set as = fmdom' (heap vm)"
    "numObjects vm = of_nat (length as)"
    and nomark: "markedset (heap vm) = {}"
    unfolding wf_vm_def by blast
  from gc_spec[OF wf] obtain vm' where g: "gc vm = Inr vm'" and wf': "wf_vm vm'"
    and d: "fmdom' (heap vm') = roots_reach vm"
    and pres: "\<forall>a ob. a \<in> roots_reach vm \<longrightarrow> fmlookup (heap vm) a = Some ob \<longrightarrow>
              (\<exists>ob'. fmlookup (heap vm') a = Some ob' \<and> same_payload ob ob')"
    and reg: "\<forall>as. is_list (heap vm) (firstObject vm) as \<longrightarrow>
              is_list (heap vm') (firstObject vm') (filter (\<lambda>a. a \<in> roots_reach vm) as) \<and>
              numObjects vm' = of_nat (length (filter (\<lambda>a. a \<in> roots_reach vm) as))"
    and fr: "maxObjects vm' = numObjects vm' * 2" "stack vm' = stack vm" "stackSize vm' = stackSize vm"
      "stdout vm' = stdout vm"
    by blast
  have flt: "filter (\<lambda>a. a \<in> roots_reach vm) as = as"
    using as(2) full by (simp add: filter_id_conv)
  from reg[rule_format, OF as(1)] have l': "is_list (heap vm') (firstObject vm') as"
    and n': "numObjects vm' = numObjects vm"
    by (simp_all add: flt as(3))
  have f': "firstObject vm' = firstObject vm"
    using is_list_head[OF l'] is_list_head[OF as(1)] by simp
  have nomark': "markedset (heap vm') = {}" using wf' by (simp add: wf_vm_def)
  have "heap vm' = heap vm"
  proof (rule fmap_ext)
    fix a show "fmlookup (heap vm') a = fmlookup (heap vm) a"
    proof (cases "fmlookup (heap vm) a")
      case None
      then have "a \<notin> fmdom' (heap vm')" by (simp add: d full fmlookup_dom'_iff)
      then show ?thesis using None by (simp add: fmlookup_dom'_iff)
    next
      case (Some ob)
      then have a: "a \<in> roots_reach vm" by (simp add: full fmlookup_dom'_iff)
      with pres Some obtain ob' where ob': "fmlookup (heap vm') a = Some ob'" "same_payload ob ob'"
        by blast
      have "marked ob = 0" "marked ob' = 0"
        using nomark nomark' Some ob'(1) by (auto simp: markedset_def)
      moreover have "next ob = next ob'"
        using as(1) l' _ Some ob'(1) by (rule is_list_next_eq) (use a as(2) full in simp)
      ultimately have "ob' = ob" using ob'(2) by (simp add: object_eqI)
      then show ?thesis using Some ob'(1) by simp
    qed
  qed
  then have "vm' = vm\<lparr> maxObjects := numObjects vm * 2 \<rparr>"
    using f' n' fr by (intro VM.equality) simp_all
  with g show ?thesis by simp
qed

lemma gc_twice:
  assumes "wf_vm vm" "gc vm = Inr vm'"
  shows "gc vm' = Inr vm'"
proof -
  from gc_spec[OF assms(1)] assms(2) have wf': "wf_vm vm'"
    and full: "roots_reach vm' = fmdom' (heap vm')"
    and mx: "maxObjects vm' = numObjects vm' * 2"
    by auto
  have "vm'\<lparr> maxObjects := numObjects vm' * 2 \<rparr> = vm'" using mx by simp
  with gc_idem[OF wf' full] show ?thesis by simp
qed

lemma markAll_from_stdout:
  "markAll_from (vm\<lparr> stdout := x \<rparr>) i = map_sum id (\<lambda>v. v\<lparr> stdout := x \<rparr>) (markAll_from vm i)"
proof (induction vm i rule: markAll_from.induct)
  case (1 vm i)
  show ?case
  proof (cases "i < stackSize vm")
    case False
    then show ?thesis
      by (simp add: markAll_from.simps[of vm i] markAll_from.simps[of "vm\<lparr> stdout := x \<rparr>" i])
  next
    case True
    show ?thesis
    proof (cases "mark (heap vm) (stack vm i)")
      case (Inl e)
      with True show ?thesis
        by (simp add: markAll_from.simps[of vm i] markAll_from.simps[of "vm\<lparr> stdout := x \<rparr>" i])
    next
      case (Inr h)
      have c: "vm\<lparr> stdout := x, heap := h \<rparr> = vm\<lparr> heap := h, stdout := x \<rparr>"
        by (cases vm) simp
      from "1.IH"[OF True Inr] True Inr show ?thesis
        by (simp add: markAll_from.simps[of vm i] markAll_from.simps[of "vm\<lparr> stdout := x \<rparr>" i] c)
    qed
  qed
qed

lemma load_stdout: "load (vm\<lparr> stdout := x \<rparr>) r = load vm r"
  by (cases r) simp_all

lemma store_stdout:
  "store (vm\<lparr> stdout := x \<rparr>) r p = map_sum id (\<lambda>v. v\<lparr> stdout := x \<rparr>) (store vm r p)"
  by (cases r) (simp_all split: option.splits)

lemma sweep_loop_stdout:
  "sweep_loop (vm\<lparr> stdout := x \<rparr>) r = map_sum id (\<lambda>v. v\<lparr> stdout := x \<rparr>) (sweep_loop vm r)"
proof (induction vm r rule: sweep_loop.induct)
  case (1 vm r)
  note unf = sweep_loop.simps[of vm r] sweep_loop.simps[of "vm\<lparr> stdout := x \<rparr>" r]
  show ?case
  proof (cases "load vm r")
    case (Inl e)
    then show ?thesis by (simp add: unf load_stdout)
  next
    case (Inr p)
    show ?thesis
    proof (cases p)
      case None
      with Inr show ?thesis by (simp add: unf load_stdout)
    next
      case (Some a)
      show ?thesis
      proof (cases "fmlookup (heap vm) a")
        case None
        with Inr Some show ?thesis by (simp add: unf load_stdout)
      next
        case (Some ob)
        show ?thesis
        proof (cases "marked ob = 0")
          case True
          show ?thesis
          proof (cases "store vm r (next ob)")
            case (Inl e)
            with Inr \<open>p = Some a\<close> Some True show ?thesis
              by (simp add: unf load_stdout store_stdout)
          next
            case (Inr vm1)
            have c: "vm1\<lparr> stdout := x, heap := fmdrop a (heap vm1),
                numObjects := numObjects vm1 - 1 \<rparr> =
              vm1\<lparr> heap := fmdrop a (heap vm1), numObjects := numObjects vm1 - 1,
                stdout := x \<rparr>"
              by (cases vm1) simp
            from "1.IH"(1)[OF \<open>load vm r = Inr p\<close> \<open>p = Some a\<close> Some True Inr]
              \<open>load vm r = Inr p\<close> \<open>p = Some a\<close> Some True Inr
            show ?thesis by (simp add: unf load_stdout store_stdout c)
          qed
        next
          case False
          have c: "vm\<lparr> stdout := x, heap := fmupd a (ob\<lparr> marked := 0 \<rparr>) (heap vm) \<rparr> =
              vm\<lparr> heap := fmupd a (ob\<lparr> marked := 0 \<rparr>) (heap vm), stdout := x \<rparr>"
            by (cases vm) simp
          from "1.IH"(2)[OF \<open>load vm r = Inr p\<close> \<open>p = Some a\<close> Some False]
            \<open>load vm r = Inr p\<close> \<open>p = Some a\<close> Some False
          show ?thesis by (simp add: unf load_stdout c)
        qed
      qed
    qed
  qed
qed

lemma gc_stdout_update:
  "gc (vm\<lparr> stdout := x \<rparr>) = map_sum id (\<lambda>v. v\<lparr> stdout := x \<rparr>) (gc vm)"
proof (cases "markAll vm")
  case (Inl e)
  then show ?thesis by (simp add: gc_def markAll_def markAll_from_stdout)
next
  case (Inr vm1)
  then show ?thesis
    by (cases "sweep vm1") (simp_all add: gc_def markAll_def sweep_def markAll_from_stdout
        sweep_loop_stdout)
qed

lemma gc_stdout: "gc vm = Inr vm' \<Longrightarrow> stdout vm' = stdout vm"
proof -
  assume g: "gc vm = Inr vm'"
  from gc_stdout_update[of "stdout vm" vm] g
  have "vm' = vm'\<lparr> stdout := stdout vm \<rparr>" by simp
  then have "stdout vm' = stdout (vm'\<lparr> stdout := stdout vm \<rparr>)" by (rule arg_cong)
  then show ?thesis by simp
qed

lemma gc_printf: "gc (printf s vm) = map_sum id (printf s) (gc vm)"
proof (cases "gc vm")
  case (Inl e)
  then show ?thesis by (simp add: printf_def gc_stdout_update)
next
  case (Inr vm')
  then show ?thesis using gc_stdout[OF Inr] by (simp add: printf_def gc_stdout_update)
qed

subsection \<open>The stack operations in closed form\<close>

lemma push_ok:
  "stackSize vm < STACK_MAX \<Longrightarrow>
   push vm p = Inr (vm\<lparr> stack := (stack vm)(stackSize vm := p), stackSize := stackSize vm + 1 \<rparr>)"
  by (simp add: push_def assert_def)

lemma push_overflow: "\<not> stackSize vm < STACK_MAX \<Longrightarrow> push vm p = Inl (Exit ''Stack overflow!'')"
  by (simp add: push_def assert_def)

lemma pop_ok:
  "0 < stackSize vm \<Longrightarrow>
   pop vm = Inr (vm\<lparr> stackSize := stackSize vm - 1 \<rparr>, stack vm (stackSize vm - 1))"
  by (simp add: pop_def assert_def)

lemma pop_underflow: "stackSize vm = 0 \<Longrightarrow> pop vm = Inl (Exit ''Stack underflow!'')"
  by (simp add: pop_def assert_def)

lemma printf_simps [simp]:
  "heap (printf s vm) = heap vm" "stack (printf s vm) = stack vm"
  "stackSize (printf s vm) = stackSize vm" "numObjects (printf s vm) = numObjects vm"
  "maxObjects (printf s vm) = maxObjects vm" "firstObject (printf s vm) = firstObject vm"
  "stdout (printf s vm) = stdout vm @ s"
  by (simp_all add: printf_def)

lemma newObject_eq:
  "newObject vm ty (Some (a, raw)) =
     (case at_malloc vm of
        Inl e \<Rightarrow> Inl e
      | Inr vm1 \<Rightarrow> Inr (linked vm1 a (cell vm1 ty raw), Some a))"
  by (simp add: newObject_def at_malloc_def linked_def cell_def split: sum.splits)

lemma newObject_null:
  "newObject vm ty None = (case at_malloc vm of Inl e \<Rightarrow> Inl e | Inr vm1 \<Rightarrow> Inl MemFault)"
  by (simp add: newObject_def at_malloc_def split: sum.splits)

lemma pushInt_eq:
  assumes "at_malloc vm = Inr vm1" "stackSize vm1 < STACK_MAX"
  shows "pushInt vm v (Some (a, raw)) =
     Inr (linked vm1 a ((cell vm1 OBJ_INT raw)\<lparr> value := v \<rparr>)
            \<lparr> stack := (stack vm1)(stackSize vm1 := Some a), stackSize := stackSize vm1 + 1 \<rparr>)"
  using assms
  by (simp add: pushInt_def newObject_eq update_obj_def linked_def cell_def push_def assert_def)

lemma pushInt_overflow:
  assumes "at_malloc vm = Inr vm1" "\<not> stackSize vm1 < STACK_MAX"
  shows "pushInt vm v (Some (a, raw)) = Inl (Exit ''Stack overflow!'')"
  using assms
  by (simp add: pushInt_def newObject_eq update_obj_def linked_def cell_def push_def assert_def)

lemma pushPair_eq:
  assumes "at_malloc vm = Inr vm1" "2 \<le> stackSize vm1" "stackSize vm1 \<le> STACK_MAX"
  shows "pushPair vm (Some (a, raw)) =
     Inr (linked vm1 a ((cell vm1 OBJ_PAIR raw)\<lparr> tail := stack vm1 (stackSize vm1 - 1),
                                                 head := stack vm1 (stackSize vm1 - 2) \<rparr>)
            \<lparr> stack := (stack vm1)(stackSize vm1 - 2 := Some a),
              stackSize := stackSize vm1 - 1 \<rparr>, Some a)"
proof -
  have "stackSize vm1 - Suc 0 - Suc 0 = stackSize vm1 - 2" "Suc (stackSize vm1 - 2) = stackSize vm1 - 1"
    "stackSize vm1 - 2 < STACK_MAX" "0 < stackSize vm1" "0 < stackSize vm1 - Suc 0"
    using assms(2,3) by auto
  then show ?thesis
    using assms(1)
    by (simp add: pushPair_def newObject_eq update_obj_def linked_def cell_def push_def pop_def
        assert_def)
qed

lemma pushPair_underflow:
  assumes "at_malloc vm = Inr vm1" "stackSize vm1 < 2"
  shows "pushPair vm (Some (a, raw)) = Inl (Exit ''Stack underflow!'')"
  using assms
  by (auto simp: pushPair_def newObject_eq update_obj_def linked_def cell_def pop_def assert_def
      split: sum.splits)

lemma pushInt_null:
  "pushInt vm v None = (case at_malloc vm of Inl e \<Rightarrow> Inl e | Inr vm1 \<Rightarrow> Inl MemFault)"
  by (simp add: pushInt_def newObject_null split: sum.splits)

lemma pushPair_null:
  "pushPair vm None = (case at_malloc vm of Inl e \<Rightarrow> Inl e | Inr vm1 \<Rightarrow> Inl MemFault)"
  by (simp add: pushPair_def newObject_null split: sum.splits)

subsection \<open>The operations preserve the invariant\<close>

lemma wf_newVM: "newVM m = Inr vm \<Longrightarrow> wf_vm vm"
  by (auto simp: wf_vm_def newVM_def markedset_def closed_def STACK_MAX_def exI[of _ "[]"]
      split: option.splits)

lemma wf_printf [simp]: "wf_vm (printf s vm) = wf_vm vm"
  by (simp add: wf_vm_def)

lemma roots_reach_printf: "roots_reach (printf s vm) = roots_reach vm"
  by (simp add: roots_reach_def roots_reach_from_def)

lemma wf_at_malloc:
  assumes "wf_vm vm"
  shows "\<exists>vm1. at_malloc vm = Inr vm1 \<and> wf_vm vm1 \<and> stack vm1 = stack vm \<and>
           stackSize vm1 = stackSize vm"
proof (cases "numObjects vm = maxObjects vm")
  case True
  have "wf_vm (printf ''Auto gc is ran\<newline>'' vm)" using assms by simp
  from gc_spec[OF this] True show ?thesis by (auto simp: at_malloc_def)
next
  case False
  with assms show ?thesis by (simp add: at_malloc_def)
qed

lemma valid_fmupd: "valid h p \<Longrightarrow> valid (fmupd a ob h) p"
  by (auto simp: valid_iff)

lemma wf_stack:
  assumes "wf_vm vm" "n \<le> STACK_MAX" "\<And>j. j < n \<Longrightarrow> valid (heap vm) (stk j)"
  shows "wf_vm (vm\<lparr> stack := stk, stackSize := n \<rparr>)"
  using assms by (simp add: wf_vm_def)

lemma wf_linked:
  assumes wf: "wf_vm vm" and fresh: "a \<notin> fmdom' (heap vm)"
    and nx: "next ob = firstObject vm" and mk: "marked ob = 0"
    and ch: "type ob = OBJ_PAIR \<Longrightarrow> valid (heap vm) (head ob) \<and> valid (heap vm) (tail ob)"
  shows "wf_vm (linked vm a ob)"
proof -
  define h where "h = heap vm"
  define h' where "h' = fmupd a ob h"
  from wf obtain as where as: "is_list h (firstObject vm) as" "set as = fmdom' h"
    "numObjects vm = of_nat (length as)"
    and nomark: "markedset h = {}" and cl: "closed h"
    and roots: "\<And>j. j < stackSize vm \<Longrightarrow> valid h (stack vm j)"
    and size: "stackSize vm \<le> STACK_MAX"
    unfolding wf_vm_def h_def by blast
  have lv: "heap (linked vm a ob) = h'" "firstObject (linked vm a ob) = Some a"
    "numObjects (linked vm a ob) = numObjects vm + 1" "stack (linked vm a ob) = stack vm"
    "stackSize (linked vm a ob) = stackSize vm"
    by (simp_all add: linked_def h'_def h_def)
  have "is_list h' (firstObject vm) as = is_list h (firstObject vm) as"
  proof (rule is_list_cong)
    fix c assume "c \<in> set as"
    then have "c \<noteq> a" using fresh as(2) by (auto simp: h_def)
    then show "map_option next (fmlookup h' c) = map_option next (fmlookup h c)"
      by (simp add: h'_def)
  qed
  then have "is_list h' (Some a) (a # as)"
    using as(1) nx by (simp add: h'_def)
  moreover have "set (a # as) = fmdom' h'" using as(2) by (simp add: h'_def)
  moreover have "numObjects vm + 1 = of_nat (length (a # as))" using as(3) by simp
  ultimately have ledger: "\<exists>bs. is_list h' (Some a) bs \<and> set bs = fmdom' h' \<and>
      numObjects vm + 1 = of_nat (length bs)"
    by blast
  have nomark': "markedset h' = {}"
    using nomark mk by (auto simp: markedset_def h'_def split: if_splits)
  have cl': "closed h'"
    unfolding closed_iff
  proof (intro allI impI)
    fix c oc assume c: "fmlookup h' c = Some oc" "type oc = OBJ_PAIR"
    show "valid h' (head oc) \<and> valid h' (tail oc)"
    proof (cases "c = a")
      case True
      then have "oc = ob" using c(1) by (simp add: h'_def)
      then show ?thesis
        using c(2) ch by (simp add: h'_def h_def valid_fmupd)
    next
      case False
      then have "fmlookup h c = Some oc" using c(1) by (simp add: h'_def)
      with cl c(2) have "valid h (head oc) \<and> valid h (tail oc)" unfolding closed_iff by blast
      then show ?thesis by (simp add: h'_def valid_fmupd)
    qed
  qed
  have "valid h' (stack vm j)" if "j < stackSize vm" for j
    using roots[OF that] by (simp add: h'_def valid_fmupd)
  then show ?thesis
    unfolding wf_vm_def lv using ledger nomark' cl' size by simp
qed

lemma wf_update_obj:
  assumes wf: "wf_vm vm" and ob: "fmlookup (heap vm) x = Some ob"
    and f: "next (f ob) = next ob" "marked (f ob) = marked ob"
    and ch: "type (f ob) = OBJ_PAIR \<Longrightarrow> valid (heap vm) (head (f ob)) \<and> valid (heap vm) (tail (f ob))"
  shows "\<exists>vm'. update_obj vm (Some x) f = Inr vm' \<and> wf_vm vm' \<and>
           heap vm' = fmupd x (f ob) (heap vm) \<and> stack vm' = stack vm \<and>
           stackSize vm' = stackSize vm \<and> numObjects vm' = numObjects vm \<and>
           maxObjects vm' = maxObjects vm"
proof -
  define h where "h = heap vm"
  define h' where "h' = fmupd x (f ob) h"
  define vm' where "vm' = vm\<lparr> heap := h' \<rparr>"
  from wf obtain as where as: "is_list h (firstObject vm) as" "set as = fmdom' h"
    "numObjects vm = of_nat (length as)"
    and nomark: "markedset h = {}" and cl: "closed h"
    and roots: "\<And>j. j < stackSize vm \<Longrightarrow> valid h (stack vm j)"
    and size: "stackSize vm \<le> STACK_MAX"
    unfolding wf_vm_def h_def by blast
  have u: "update_obj vm (Some x) f = Inr vm'"
    using ob by (simp add: update_obj_def vm'_def h'_def h_def)
  have "is_list h' (firstObject vm) as = is_list h (firstObject vm) as"
  proof (rule is_list_cong)
    fix c show "map_option next (fmlookup h' c) = map_option next (fmlookup h c)"
      using ob f(1) by (cases "c = x") (simp_all add: h'_def h_def)
  qed
  moreover have d: "fmdom' h' = fmdom' h"
    using ob by (auto simp: h'_def h_def fmlookup_dom'_iff)
  ultimately have ledger: "\<exists>bs. is_list h' (firstObject vm) bs \<and> set bs = fmdom' h' \<and>
      numObjects vm = of_nat (length bs)"
    using as by auto
  have m0: "marked ob = 0" using nomark ob by (auto simp: markedset_def h_def)
  have nomark': "markedset h' = {}"
    using nomark f(2) m0 by (auto simp: markedset_def h'_def split: if_splits)
  have cl': "closed h'"
    unfolding closed_iff
  proof (intro allI impI)
    fix c oc assume c: "fmlookup h' c = Some oc" "type oc = OBJ_PAIR"
    show "valid h' (head oc) \<and> valid h' (tail oc)"
    proof (cases "c = x")
      case True
      then have "oc = f ob" using c(1) by (simp add: h'_def)
      then show ?thesis using c(2) ch by (simp add: h'_def h_def valid_fmupd)
    next
      case False
      then have "fmlookup h c = Some oc" using c(1) by (simp add: h'_def)
      with cl c(2) have "valid h (head oc) \<and> valid h (tail oc)" unfolding closed_iff by blast
      then show ?thesis by (simp add: h'_def valid_fmupd)
    qed
  qed
  have "valid h' (stack vm j)" if "j < stackSize vm" for j
    using roots[OF that] by (simp add: h'_def valid_fmupd)
  then have "wf_vm vm'"
    unfolding wf_vm_def using ledger nomark' cl' size by (simp add: vm'_def)
  with u show ?thesis by (simp add: vm'_def h'_def h_def)
qed

lemma wf_push:
  assumes "wf_vm vm" "valid (heap vm) p" "push vm p = Inr vm'"
  shows "wf_vm vm'"
proof -
  have lt: "stackSize vm < STACK_MAX"
    using assms(3) by (auto simp: push_def assert_def split: if_splits)
  have roots: "valid (heap vm) (stack vm j)" if "j < stackSize vm" for j
    using assms(1) that by (simp add: wf_vm_def)
  have "wf_vm (vm\<lparr> stack := (stack vm)(stackSize vm := p), stackSize := stackSize vm + 1 \<rparr>)"
    using assms(1)
  proof (rule wf_stack)
    show "stackSize vm + 1 \<le> STACK_MAX" using lt by simp
    fix j assume "j < stackSize vm + 1"
    then show "valid (heap vm) (((stack vm)(stackSize vm := p)) j)"
      using roots[of j] assms(2) by (cases "j = stackSize vm") auto
  qed
  then show ?thesis using assms(3) lt by (simp add: push_ok)
qed

lemma wf_pop:
  assumes "wf_vm vm" "pop vm = Inr (vm', p)"
  shows "wf_vm vm' \<and> valid (heap vm) p"
proof -
  have gt: "0 < stackSize vm"
    using assms(2) by (auto simp: pop_def assert_def split: if_splits)
  have roots: "valid (heap vm) (stack vm j)" if "j < stackSize vm" for j
    using assms(1) that by (simp add: wf_vm_def)
  have sz: "stackSize vm \<le> STACK_MAX" using assms(1) by (simp add: wf_vm_def)
  have "wf_vm (vm\<lparr> stack := stack vm, stackSize := stackSize vm - 1 \<rparr>)"
    using assms(1)
  proof (rule wf_stack)
    show "stackSize vm - 1 \<le> STACK_MAX" using sz by simp
    fix j assume "j < stackSize vm - 1"
    then show "valid (heap vm) (stack vm j)" using roots[of j] by simp
  qed
  moreover have "valid (heap vm) (stack vm (stackSize vm - 1))" using roots gt by simp
  ultimately show ?thesis using assms(2) gt by (simp add: pop_ok)
qed

lemma malloc_okD: "malloc_ok vm a \<Longrightarrow> at_malloc vm = Inr vm1 \<Longrightarrow> a \<notin> fmdom' (heap vm1)"
  by (simp add: malloc_ok_def fmdom'_alt_def)

lemma wf_pushInt:
  assumes wf: "wf_vm vm" and ok: "malloc_ok vm a" and res: "pushInt vm v (Some (a, raw)) = Inr vm'"
  shows "wf_vm vm'"
proof -
  from wf_at_malloc[OF wf] obtain vm1 where m: "at_malloc vm = Inr vm1" and wf1: "wf_vm vm1"
    by blast
  have lt: "stackSize vm1 < STACK_MAX"
    using res pushInt_overflow[OF m, of v a raw] by (cases "stackSize vm1 < STACK_MAX") auto
  define ob where "ob = (cell vm1 OBJ_INT raw)\<lparr> value := v \<rparr>"
  define vm2 where "vm2 = linked vm1 a ob"
  have wf2: "wf_vm vm2"
    unfolding vm2_def using wf1 malloc_okD[OF ok m]
    by (rule wf_linked) (simp_all add: ob_def cell_def)
  have s2: "stack vm2 = stack vm1" "stackSize vm2 = stackSize vm1" "heap vm2 = fmupd a ob (heap vm1)"
    by (simp_all add: vm2_def linked_def)
  have roots: "valid (heap vm2) (stack vm2 j)" if "j < stackSize vm2" for j
    using wf2 that by (simp add: wf_vm_def)
  have "wf_vm (vm2\<lparr> stack := (stack vm1)(stackSize vm1 := Some a), stackSize := stackSize vm1 + 1 \<rparr>)"
    using wf2
  proof (rule wf_stack)
    show "stackSize vm1 + 1 \<le> STACK_MAX" using lt by simp
    fix j assume "j < stackSize vm1 + 1"
    then show "valid (heap vm2) (((stack vm1)(stackSize vm1 := Some a)) j)"
      using roots[of j] by (cases "j = stackSize vm1") (auto simp: s2 valid_iff)
  qed
  then show ?thesis using res pushInt_eq[OF m lt, of v a raw] by (simp add: vm2_def ob_def)
qed

lemma wf_pushPair:
  assumes wf: "wf_vm vm" and ok: "malloc_ok vm a"
    and res: "pushPair vm (Some (a, raw)) = Inr (vm', p)"
  shows "wf_vm vm'"
proof -
  from wf_at_malloc[OF wf] obtain vm1 where m: "at_malloc vm = Inr vm1" and wf1: "wf_vm vm1"
    by blast
  have ge: "2 \<le> stackSize vm1"
    using res pushPair_underflow[OF m, of a raw] by (cases "stackSize vm1 < 2") auto
  have sz: "stackSize vm1 \<le> STACK_MAX" using wf1 by (simp add: wf_vm_def)
  have roots1: "valid (heap vm1) (stack vm1 j)" if "j < stackSize vm1" for j
    using wf1 that by (simp add: wf_vm_def)
  define x where "x = stack vm1 (stackSize vm1 - 2)"
  define y where "y = stack vm1 (stackSize vm1 - 1)"
  define ob where "ob = (cell vm1 OBJ_PAIR raw)\<lparr> tail := y, head := x \<rparr>"
  define vm2 where "vm2 = linked vm1 a ob"
  have "valid (heap vm1) x \<and> valid (heap vm1) y"
    unfolding x_def y_def using roots1 ge by simp
  then have wf2: "wf_vm vm2"
    unfolding vm2_def using wf1 malloc_okD[OF ok m]
    by (intro wf_linked) (simp_all add: ob_def cell_def)
  have s2: "stack vm2 = stack vm1" "stackSize vm2 = stackSize vm1"
    "heap vm2 = fmupd a ob (heap vm1)"
    by (simp_all add: vm2_def linked_def)
  have roots: "valid (heap vm2) (stack vm2 j)" if "j < stackSize vm2" for j
    using wf2 that by (simp add: wf_vm_def)
  have "wf_vm (vm2\<lparr> stack := (stack vm1)(stackSize vm1 - 2 := Some a), stackSize := stackSize vm1 - 1 \<rparr>)"
    using wf2
  proof (rule wf_stack)
    show "stackSize vm1 - 1 \<le> STACK_MAX" using sz by simp
    fix j assume "j < stackSize vm1 - 1"
    then show "valid (heap vm2) (((stack vm1)(stackSize vm1 - 2 := Some a)) j)"
      using roots[of j] by (cases "j = stackSize vm1 - 2") (auto simp: s2 valid_iff)
  qed
  moreover have "vm' = vm2\<lparr> stack := (stack vm1)(stackSize vm1 - 2 := Some a),
      stackSize := stackSize vm1 - 1 \<rparr>"
    using res unfolding pushPair_eq[OF m ge sz, of a raw]
    by (auto simp: vm2_def ob_def x_def y_def)
  ultimately show ?thesis by simp
qed

subsection \<open>Reachable states\<close>

lemma reachable_wf: "reachable vm \<Longrightarrow> wf_vm vm"
proof (induction rule: reachable.induct)
  case (r_newVM m vm)
  then show ?case by (rule wf_newVM)
next
  case (r_pushInt vm a v raw vm')
  then show ?case using wf_pushInt by blast
next
  case (r_pushPair vm a raw vm' p)
  then show ?case using wf_pushPair by blast
next
  case (r_pop vm vm' p)
  then show ?case using wf_pop by blast
next
  case (r_push vm p vm')
  then show ?case using wf_push by blast
next
  case (r_gc vm vm')
  then show ?case using gc_spec[of vm] by auto
next
  case (r_set_head vm x ob p vm')
  have cl: "closed (heap vm)" using r_set_head.IH by (simp add: wf_vm_def)
  with r_set_head.hyps(2,3) have "valid (heap vm) (tail ob)" unfolding closed_iff by blast
  with wf_update_obj[OF r_set_head.IH r_set_head.hyps(2), of "\<lambda>ob. ob\<lparr> head := p \<rparr>"]
    r_set_head.hyps(4,5)
  show ?case by auto
next
  case (r_set_tail vm x ob p vm')
  have cl: "closed (heap vm)" using r_set_tail.IH by (simp add: wf_vm_def)
  with r_set_tail.hyps(2,3) have "valid (heap vm) (head ob)" unfolding closed_iff by blast
  with wf_update_obj[OF r_set_tail.IH r_set_tail.hyps(2), of "\<lambda>ob. ob\<lparr> tail := p \<rparr>"]
    r_set_tail.hyps(4,5)
  show ?case by auto
qed

lemma newVM_empty_vm: "newVM (Some (\<lambda>_. None)) = Inr empty_vm"
  by (simp add: newVM_def empty_vm_def INIT_OBJ_NUM_MAX_def)

lemma reachable_empty_vm: "reachable empty_vm"
  using newVM_empty_vm by (rule r_newVM)

lemma wf_empty_vm: "wf_vm empty_vm"
  using reachable_empty_vm by (rule reachable_wf)

lemma reachable_one_int: "reachable one_int"
proof -
  have "malloc_ok empty_vm 0"
    by (simp add: malloc_ok_def at_malloc_def empty_vm_def)
  moreover have "pushInt empty_vm 5 (Some (0, junk)) = Inr one_int"
    by (simp add: pushInt_def newObject_def update_obj_def push_def assert_def empty_vm_def
        STACK_MAX_def one_int_def junk_def five_def)
  ultimately show ?thesis using reachable_empty_vm by (rule r_pushInt[rotated])
qed



subsection \<open>The state with a collection due\<close>

lemma wf_due_vm: "wf_vm due_vm"
proof -
  have "is_list (heap due_vm) (firstObject due_vm) [2, 1, 0]"
    "set [2, 1, 0] = fmdom' (heap due_vm)" "numObjects due_vm = of_nat (length [2, 1, 0 :: nat])"
    by (auto simp: due_vm_def int_cell_def)
  then have "\<exists>as. is_list (heap due_vm) (firstObject due_vm) as \<and> set as = fmdom' (heap due_vm) \<and>
      numObjects due_vm = of_nat (length as)"
    by blast
  moreover have "markedset (heap due_vm) = {}"
    by (auto simp: markedset_def due_vm_def int_cell_def split: if_splits)
  moreover have "closed (heap due_vm)"
    by (auto simp: closed_iff due_vm_def int_cell_def split: if_splits)
  moreover have "valid (heap due_vm) (stack due_vm j)" if "j < stackSize due_vm" for j
  proof -
    from that have "j = 0 \<or> j = 1" by (auto simp: due_vm_def)
    then show ?thesis by (auto simp: valid_def due_vm_def)
  qed
  moreover have "stackSize due_vm \<le> STACK_MAX" by (simp add: due_vm_def STACK_MAX_def)
  ultimately show ?thesis unfolding wf_vm_def by blast
qed

lemma vm_eqI:
  "numObjects vm' = numObjects vm \<Longrightarrow> maxObjects vm' = maxObjects vm \<Longrightarrow>
   firstObject vm' = firstObject vm \<Longrightarrow> stack vm' = stack vm \<Longrightarrow>
   stackSize vm' = stackSize vm \<Longrightarrow> (\<And>a. fmlookup (heap vm') a = fmlookup (heap vm) a) \<Longrightarrow>
   stdout vm' = stdout vm \<Longrightarrow> vm' = (vm :: VM)"
  by (rule VM.equality) (auto intro: fmap_ext)

lemma gc_due_vm: "gc due_vm = Inr due_vm_collected"
proof -
  have "\<exists>vm'. gc due_vm = Inr vm' \<and> numObjects vm' = numObjects due_vm_collected \<and>
      maxObjects vm' = maxObjects due_vm_collected \<and>
      firstObject vm' = firstObject due_vm_collected \<and> stack vm' = stack due_vm_collected \<and>
      stackSize vm' = stackSize due_vm_collected \<and>
      (\<forall>a. fmlookup (heap vm') a = fmlookup (heap due_vm_collected) a) \<and>
      stdout vm' = stdout due_vm_collected"
    by (simp add: gc_def markAll_def markAll_from.simps mark.simps sweep_def sweep_loop.simps
      due_vm_def due_vm_collected_def int_cell_def)
  then show ?thesis using vm_eqI by blast
qed

lemma at_malloc_due_vm:
  "at_malloc due_vm = Inr (printf ''Auto gc is ran\<newline>'' due_vm_collected)"
  by (simp add: at_malloc_def gc_printf gc_due_vm) (simp add: due_vm_def)

lemma malloc_ok_due_vm: "malloc_ok due_vm 2"
  by (simp add: malloc_ok_def at_malloc_due_vm) (simp add: due_vm_collected_def)

subsection \<open>Allocation\<close>

lemma allocates_linked:
  "allocates vm1 ty a raw (Inr (linked vm1 a (cell vm1 ty raw), Some a))"
proof -
  have "is_list (fmupd a (cell vm1 ty raw) (heap vm1)) (firstObject vm1) as"
    if "is_list (heap vm1) (firstObject vm1) as" "a \<notin> set as" for as
  proof -
    have "is_list (fmupd a (cell vm1 ty raw) (heap vm1)) (firstObject vm1) as =
        is_list (heap vm1) (firstObject vm1) as"
    proof (rule is_list_cong)
      fix c assume "c \<in> set as"
      then have "c \<noteq> a" using that(2) by auto
      then show "map_option next (fmlookup (fmupd a (cell vm1 ty raw) (heap vm1)) c) =
          map_option next (fmlookup (heap vm1) c)"
        by simp
    qed
    with that(1) show ?thesis by simp
  qed
  then show ?thesis
    by (simp add: allocates_def linked_def cell_def)
qed

subsection \<open>The full stack\<close>

lemma wf_full_vm: "wf_vm full_vm"
proof -
  have "is_list (heap full_vm) (firstObject full_vm) [0]"
    "set [0] = fmdom' (heap full_vm)" "numObjects full_vm = of_nat (length [0 :: nat])"
    by (auto simp: full_vm_def int_cell_def)
  then have "\<exists>as. is_list (heap full_vm) (firstObject full_vm) as \<and>
      set as = fmdom' (heap full_vm) \<and> numObjects full_vm = of_nat (length as)"
    by blast
  moreover have "markedset (heap full_vm) = {}"
    by (auto simp: markedset_def full_vm_def int_cell_def split: if_splits)
  moreover have "closed (heap full_vm)"
    by (auto simp: closed_iff full_vm_def int_cell_def split: if_splits)
  moreover have "valid (heap full_vm) (stack full_vm j)" for j
    by (simp add: valid_def full_vm_def)
  moreover have "stackSize full_vm \<le> STACK_MAX" by (simp add: full_vm_def STACK_MAX_def)
  ultimately show ?thesis unfolding wf_vm_def by blast
qed



lemma fmdom'_empty: "fmdom' h = {} \<Longrightarrow> h = fmempty"
proof -
  assume e: "fmdom' h = {}"
  have "fmlookup h c = None" for c
    using fmlookup_dom'_iff[of c h] e by (cases "fmlookup h c") auto
  then show ?thesis by (intro fmap_ext) simp
qed


subsection \<open>The tests of main.c\<close>

lemmas run_defs = andthen_def set_tail_def pushInt_def pushPair_def newObject_def update_obj_def
  push_def pop_def assert_def newVM_def INIT_OBJ_NUM_MAX_def STACK_MAX_def gc_def markAll_def
  markAll_from.simps mark.simps sweep_def sweep_loop.simps blk_def slots0_def junk_def
  printf_def

lemma test1_asserts: "\<exists>vm. test1 = Inr vm \<and> numObjects vm = 2"
  by (simp add: test1_def run_defs)

lemma test2_asserts: "\<exists>vm. test2 = Inr vm \<and> numObjects vm = 0"
  by (simp add: test2_def run_defs)

lemma test3_asserts: "\<exists>vm. test3 = Inr vm \<and> stackSize vm = 1 \<and> numObjects vm = 7"
  by (simp add: test3_def run_defs)

lemma test4_asserts:
  "\<exists>vm vm'. test4_setup = Inr vm \<and> stackSize vm = 2 \<and> numObjects vm = 6 \<and>
     gc vm = Inr vm' \<and> numObjects vm' = 4"
  by (simp add: test4_setup_def run_defs)

lemma test5_asserts: "\<exists>vm. test5 = Inr vm \<and> stackSize vm = 3 \<and> numObjects vm = 7"
  by (simp add: test5_def test4_setup_def run_defs)

lemma reachable_test4_setup: "\<exists>vm. test4_setup = Inr vm \<and> reachable vm"
proof -
  define s0 where "s0 = projr (newVM slots0)"
  define s1 where "s1 = projr (pushInt s0 1 (blk 10))"
  define s2 where "s2 = projr (pushInt s1 2 (blk 11))"
  define s3 where "s3 = fst (projr (pushPair s2 (blk 12)))"
  define s4 where "s4 = projr (pushInt s3 3 (blk 13))"
  define s5 where "s5 = projr (pushInt s4 4 (blk 14))"
  define s6 where "s6 = fst (projr (pushPair s5 (blk 15)))"
  define s7 where "s7 = projr (set_tail s6 (Some 12) (Some 15))"
  define s8 where "s8 = projr (set_tail s7 (Some 15) (Some 12))"
  note defs = malloc_ok_def at_malloc_def run_defs
  have e0: "newVM slots0 = Inr s0"
    by (simp add: s0_def defs)
  have e1: "pushInt s0 1 (Some (10, junk)) = Inr s1" and m1: "malloc_ok s0 10"
    by (simp_all add: s1_def s0_def defs)
  have e2: "pushInt s1 2 (Some (11, junk)) = Inr s2" and m2: "malloc_ok s1 11"
    by (simp_all add: s2_def s1_def s0_def defs)
  have e3: "pushPair s2 (Some (12, junk)) = Inr (s3, Some 12)" and m3: "malloc_ok s2 12"
    by (simp_all add: s3_def s2_def s1_def s0_def defs)
  have e4: "pushInt s3 3 (Some (13, junk)) = Inr s4" and m4: "malloc_ok s3 13"
    by (simp_all add: s4_def s3_def s2_def s1_def s0_def defs)
  have e5: "pushInt s4 4 (Some (14, junk)) = Inr s5" and m5: "malloc_ok s4 14"
    by (simp_all add: s5_def s4_def s3_def s2_def s1_def s0_def defs)
  have e6: "pushPair s5 (Some (15, junk)) = Inr (s6, Some 15)" and m6: "malloc_ok s5 15"
    by (simp_all add: s6_def s5_def s4_def s3_def s2_def s1_def s0_def defs)
  have e7: "update_obj s6 (Some 12) (\<lambda>ob. ob\<lparr> tail := Some 15 \<rparr>) = Inr s7"
    and l7: "\<exists>ob. fmlookup (heap s6) 12 = Some ob \<and> type ob = OBJ_PAIR" "valid (heap s6) (Some 15)"
    by (simp_all add: s7_def s6_def s5_def s4_def s3_def s2_def s1_def s0_def defs valid_def)
  have e8: "update_obj s7 (Some 15) (\<lambda>ob. ob\<lparr> tail := Some 12 \<rparr>) = Inr s8"
    and l8: "\<exists>ob. fmlookup (heap s7) 15 = Some ob \<and> type ob = OBJ_PAIR" "valid (heap s7) (Some 12)"
    by (simp_all add: s8_def s7_def s6_def s5_def s4_def s3_def s2_def s1_def s0_def defs valid_def)
  have "reachable s0" using e0 by (rule r_newVM)
  then have "reachable s1" using m1 e1 by (rule r_pushInt)
  then have "reachable s2" using m2 e2 by (rule r_pushInt)
  then have "reachable s3" using m3 e3 by (rule r_pushPair)
  then have "reachable s4" using m4 e4 by (rule r_pushInt)
  then have "reachable s5" using m5 e5 by (rule r_pushInt)
  then have "reachable s6" using m6 e6 by (rule r_pushPair)
  then have "reachable s7" using l7 e7 by (blast intro: r_set_tail)
  then have "reachable s8" using l8 e8 by (blast intro: r_set_tail)
  moreover have "test4_setup = Inr s8"
    using e0 e1 e2 e3 e4 e5 e6 e7 e8
    by (simp add: test4_setup_def andthen_def set_tail_def blk_def)
  ultimately show ?thesis by blast
qed

subsection \<open>The native call stack and malloc\<close>

lemma mark_unmarked_subset: "mark h p = Inr h' \<Longrightarrow> unmarked h' \<subseteq> unmarked h"
proof (induction h p arbitrary: h' rule: mark.induct)
  case (1 h object)
  note eq = mark.simps[of h object]
  from "1.prems" obtain a ob where a: "object = Some a" "fmlookup h a = Some ob"
    unfolding eq by (auto split: option.splits)
  show ?case
  proof (cases "marked ob \<noteq> 0")
    case True
    with a "1.prems" show ?thesis unfolding eq by simp
  next
    case False
    define h1 where "h1 = fmupd a (ob\<lparr>marked := 1\<rparr>) h"
    have u1: "unmarked h1 \<subseteq> unmarked h"
      using a False by (simp add: h1_def unmarked_upd_marked)
    show ?thesis
    proof (cases "type ob = OBJ_PAIR")
      case True
      with a False "1.prems" obtain h2 ob2 where
        h2: "mark h1 (head ob) = Inr h2" "fmlookup h2 a = Some ob2" "mark h2 (tail ob2) = Inr h'"
        unfolding eq by (auto simp: h1_def Let_def split: sum.splits option.splits)
      from "1.IH"(1)[OF a False h1_def True h2(1)] have "unmarked h2 \<subseteq> unmarked h1" .
      moreover from "1.IH"(2)[OF a False h1_def True h2(1) h2(2) h2(3)]
      have "unmarked h' \<subseteq> unmarked h2" .
      ultimately show ?thesis using u1 by blast
    next
      case False
      with a \<open>\<not> marked ob \<noteq> 0\<close> "1.prems" have "h' = h1"
        unfolding eq by (simp add: h1_def Let_def)
      with u1 show ?thesis by simp
    qed
  qed
qed

lemma mark_on_eq: "card (unmarked h) < n \<Longrightarrow> mark_on n h p = mark h p"
proof (induction h p arbitrary: n rule: mark.induct)
  case (1 h object)
  from "1.prems" obtain k where n: "n = Suc k" by (cases n) auto
  show ?case
  proof (cases object)
    case None
    then show ?thesis by (simp add: n mark.simps[of h None])
  next
    case (Some a)
    note eq = mark.simps[of h "Some a"]
    show ?thesis
    proof (cases "fmlookup h a")
      case None
      with Some show ?thesis by (simp add: n eq)
    next
      case ob: (Some ob)
      show ?thesis
      proof (cases "marked ob \<noteq> 0")
        case True
        with Some ob show ?thesis by (simp add: n eq)
      next
        case False
        define h1 where "h1 = fmupd a (ob\<lparr>marked := 1\<rparr>) h"
        have "unmarked h1 = unmarked h - {a}" "a \<in> unmarked h"
          using ob False by (auto simp: h1_def unmarked_upd_marked) (simp add: unmarked_def)
        then have "card (unmarked h1) < card (unmarked h)"
          using card_Diff1_less[OF finite_unmarked, of a h] by simp
        with "1.prems" have c1: "card (unmarked h1) < k" by (simp add: n)
        show ?thesis
        proof (cases "type ob = OBJ_PAIR")
          case pair: True
          have e1: "mark_on k h1 (head ob) = mark h1 (head ob)"
            using "1.IH"(1)[OF Some ob False h1_def pair c1] .
          show ?thesis
          proof (cases "mark h1 (head ob)")
            case (Inl e)
            with Some ob False pair e1 show ?thesis by (simp add: n eq h1_def Let_def)
          next
            case (Inr h2)
            have "unmarked h2 \<subseteq> unmarked h1" using Inr by (rule mark_unmarked_subset)
            then have "card (unmarked h2) \<le> card (unmarked h1)"
              by (simp add: card_mono finite_unmarked)
            with c1 have c2: "card (unmarked h2) < k" by simp
            show ?thesis
            proof (cases "fmlookup h2 a")
              case None
              with Some ob False pair e1 Inr show ?thesis by (simp add: n eq h1_def Let_def)
            next
              case ob2: (Some ob2)
              have "mark_on k h2 (tail ob2) = mark h2 (tail ob2)"
                using "1.IH"(2)[OF Some ob False h1_def pair Inr ob2 c2] .
              with Some ob False pair e1 Inr ob2 show ?thesis
                by (simp add: n eq h1_def Let_def)
            qed
          qed
        next
          case False
          with Some ob \<open>\<not> marked ob \<noteq> 0\<close> show ?thesis by (simp add: n eq Let_def)
        qed
      qed
    qed
  qed
qed

lemma markAll_from_on_eq:
  "card (unmarked (heap vm)) < n \<Longrightarrow> markAll_from_on n vm i = markAll_from vm i"
proof (induction vm i rule: markAll_from.induct)
  case (1 vm i)
  note unf = markAll_from.simps[of vm i] markAll_from_on.simps[of n vm i]
  show ?case
  proof (cases "i < stackSize vm")
    case False
    then show ?thesis by (simp add: unf)
  next
    case True
    have m: "mark_on n (heap vm) (stack vm i) = mark (heap vm) (stack vm i)"
      using "1.prems" by (rule mark_on_eq)
    show ?thesis
    proof (cases "mark (heap vm) (stack vm i)")
      case (Inl e)
      with True m show ?thesis by (simp add: unf)
    next
      case (Inr h)
      have "unmarked h \<subseteq> unmarked (heap vm)" using Inr by (rule mark_unmarked_subset)
      then have "card (unmarked h) \<le> card (unmarked (heap vm))"
        by (simp add: card_mono finite_unmarked)
      with "1.prems" have "card (unmarked (heap (vm\<lparr> heap := h \<rparr>))) < n" by simp
      from "1.IH"[OF True Inr this] True m Inr show ?thesis by (simp add: unf)
    qed
  qed
qed

lemma card_unmarked_le: "card (unmarked h) \<le> card (fmdom' h)"
  by (simp add: card_mono unmarked_subset_dom)

lemma gc_on_eq: "card (fmdom' (heap vm)) < n \<Longrightarrow> gc_on n vm = gc vm"
proof -
  assume "card (fmdom' (heap vm)) < n"
  with card_unmarked_le[of "heap vm"] have "card (unmarked (heap vm)) < n" by simp
  then show ?thesis by (simp add: gc_on_def gc_def markAll_on_def markAll_def markAll_from_on_eq)
qed

lemma newObject_on_eq:
  "card (fmdom' (heap vm)) < n \<Longrightarrow> newObject_on n vm ty m = newObject vm ty m"
  by (simp add: newObject_on_def newObject_def gc_on_eq)

lemma pushInt_on_eq: "card (fmdom' (heap vm)) < n \<Longrightarrow> pushInt_on n vm v m = pushInt vm v m"
  by (simp add: pushInt_on_def pushInt_def newObject_on_eq)

lemma pushPair_on_eq: "card (fmdom' (heap vm)) < n \<Longrightarrow> pushPair_on n vm m = pushPair vm m"
  by (simp add: pushPair_on_def pushPair_def newObject_on_eq)

lemma freeVM_on_eq: "card (fmdom' (heap vm)) < n \<Longrightarrow> freeVM_on n vm = freeVM vm"
  by (simp add: freeVM_on_def freeVM_def gc_on_eq)

lemma freeVM_frees_all:
  assumes "wf_vm vm"
  shows "freeVM vm = Inr fmempty"
proof -
  have wf0: "wf_vm (vm\<lparr> stack := stack vm, stackSize := 0 \<rparr>)"
    using assms by (rule wf_stack) simp_all
  have r: "roots_reach (vm\<lparr> stackSize := 0 \<rparr>) = {}"
    by (simp add: roots_reach_def roots_reach_from_def)
  from gc_spec[of "vm\<lparr> stackSize := 0 \<rparr>"] wf0 obtain vm'
    where g: "gc (vm\<lparr> stackSize := 0 \<rparr>) = Inr vm'"
      and d: "fmdom' (heap vm') = roots_reach (vm\<lparr> stackSize := 0 \<rparr>)"
    by auto
  from d r have "heap vm' = fmempty" by (simp add: fmdom'_empty)
  with g show ?thesis by (simp add: freeVM_def)
qed

lemma reachable_deep_chain: "\<exists>vm. deep_chain = Inr vm \<and> reachable vm"
proof -
  define s0 where "s0 = projr (newVM slots0)"
  define s1 where "s1 = projr (pushInt s0 1 (blk 10))"
  define s2 where "s2 = projr (pushInt s1 2 (blk 11))"
  define s3 where "s3 = fst (projr (pushPair s2 (blk 12)))"
  define s4 where "s4 = projr (pushInt s3 3 (blk 13))"
  define s5 where "s5 = fst (projr (pushPair s4 (blk 14)))"
  define s6 where "s6 = projr (pushInt s5 4 (blk 15))"
  define s7 where "s7 = fst (projr (pushPair s6 (blk 16)))"
  define s8 where "s8 = projr (pushInt s7 5 (blk 17))"
  note defs = malloc_ok_def at_malloc_def run_defs
  have e0: "newVM slots0 = Inr s0"
    by (simp add: s0_def defs)
  have e1: "pushInt s0 1 (Some (10, junk)) = Inr s1" and m1: "malloc_ok s0 10"
    by (simp_all add: s1_def s0_def defs)
  have e2: "pushInt s1 2 (Some (11, junk)) = Inr s2" and m2: "malloc_ok s1 11"
    by (simp_all add: s2_def s1_def s0_def defs)
  have e3: "pushPair s2 (Some (12, junk)) = Inr (s3, Some 12)" and m3: "malloc_ok s2 12"
    by (simp_all add: s3_def s2_def s1_def s0_def defs)
  have e4: "pushInt s3 3 (Some (13, junk)) = Inr s4" and m4: "malloc_ok s3 13"
    by (simp_all add: s4_def s3_def s2_def s1_def s0_def defs)
  have e5: "pushPair s4 (Some (14, junk)) = Inr (s5, Some 14)" and m5: "malloc_ok s4 14"
    by (simp_all add: s5_def s4_def s3_def s2_def s1_def s0_def defs)
  have e6: "pushInt s5 4 (Some (15, junk)) = Inr s6" and m6: "malloc_ok s5 15"
    by (simp_all add: s6_def s5_def s4_def s3_def s2_def s1_def s0_def defs)
  have e7: "pushPair s6 (Some (16, junk)) = Inr (s7, Some 16)" and m7: "malloc_ok s6 16"
    by (simp_all add: s7_def s6_def s5_def s4_def s3_def s2_def s1_def s0_def defs)
  have e8: "pushInt s7 5 (Some (17, junk)) = Inr s8" and m8: "malloc_ok s7 17"
    by (simp_all add: s8_def s7_def s6_def s5_def s4_def s3_def s2_def s1_def s0_def defs)
  have "reachable s0" using e0 by (rule r_newVM)
  then have "reachable s1" using m1 e1 by (rule r_pushInt)
  then have "reachable s2" using m2 e2 by (rule r_pushInt)
  then have "reachable s3" using m3 e3 by (rule r_pushPair)
  then have "reachable s4" using m4 e4 by (rule r_pushInt)
  then have "reachable s5" using m5 e5 by (rule r_pushPair)
  then have "reachable s6" using m6 e6 by (rule r_pushInt)
  then have "reachable s7" using m7 e7 by (rule r_pushPair)
  then have "reachable s8" using m8 e8 by (rule r_pushInt)
  moreover have "deep_chain = Inr s8"
    using e0 e1 e2 e3 e4 e5 e6 e7 e8 by (simp add: deep_chain_def andthen_def blk_def)
  ultimately show ?thesis by blast
qed

lemma deep_chain_state:
  "\<exists>vm. deep_chain = Inr vm \<and> stackSize vm = 2 \<and> stack vm 0 = Some 16 \<and>
     stack vm 1 = Some 17 \<and> numObjects vm = 8 \<and> maxObjects vm = 8 \<and> heap vm = deep_heap"
proof -
  have "\<exists>vm. deep_chain = Inr vm \<and> stackSize vm = 2 \<and> stack vm 0 = Some 16 \<and>
     stack vm 1 = Some 17 \<and> numObjects vm = 8 \<and> maxObjects vm = 8 \<and>
     (\<forall>a. fmlookup (heap vm) a = fmlookup deep_heap a)"
    by (simp add: deep_chain_def run_defs deep_heap_def)
  then show ?thesis by (metis fmap_ext)
qed

lemma mark_on_deep_heap: "mark_on 3 deep_heap (Some 16) = Inl StackExhausted"
  by (simp add: deep_heap_def junk_def numeral_3_eq_3)

lemma gc_on_exhausted:
  "0 < stackSize vm \<Longrightarrow> mark_on n (heap vm) (stack vm 0) = Inl e \<Longrightarrow> gc_on n vm = Inl e"
  by (simp add: gc_on_def markAll_on_def markAll_from_on.simps[of n vm 0])

lemma dom_deep_heap: "fmdom' deep_heap = {10, 11, 12, 13, 14, 15, 16, 17}"
  by (auto simp: deep_heap_def)

lemma head_chainD:
  "head_chain h k \<Longrightarrow> 0 < i \<Longrightarrow> i \<le> k \<Longrightarrow>
   \<exists>ob. fmlookup h (2 * i) = Some ob \<and> marked ob = 0 \<and> type ob = OBJ_PAIR \<and>
      head ob = Some (2 * (i - 1))"
  unfolding head_chain_def by blast

lemma mark_on_head_chain:
  "head_chain h k \<Longrightarrow> n \<le> k \<Longrightarrow> mark_on n h (Some (2 * k)) = Inl StackExhausted"
proof (induction n arbitrary: h k)
  case 0
  show ?case by simp
next
  case (Suc n)
  from Suc.prems(2) have kpos: "0 < k" by simp
  from head_chainD[OF Suc.prems(1) kpos] obtain ob where ob: "fmlookup h (2 * k) = Some ob"
    "marked ob = 0" "type ob = OBJ_PAIR" "head ob = Some (2 * (k - 1))"
    by blast
  define h1 where "h1 = fmupd (2 * k) (ob\<lparr> marked := 1 \<rparr>) h"
  have "head_chain h1 (k - 1)"
    unfolding head_chain_def
  proof (intro allI impI)
    fix i assume "0 < i \<and> i \<le> k - 1"
    then have i: "0 < i" "i \<le> k" and ne: "2 * i \<noteq> 2 * k" using kpos by auto
    from head_chainD[OF Suc.prems(1) i] obtain oi where "fmlookup h (2 * i) = Some oi"
      "marked oi = 0" "type oi = OBJ_PAIR" "head oi = Some (2 * (i - 1))"
      by blast
    with ne show "\<exists>ob. fmlookup h1 (2 * i) = Some ob \<and> marked ob = 0 \<and> type ob = OBJ_PAIR \<and>
        head ob = Some (2 * (i - 1))"
      by (simp add: h1_def)
  qed
  moreover have "n \<le> k - 1" using Suc.prems(2) by simp
  ultimately have r: "mark_on n h1 (Some (2 * (k - 1))) = Inl StackExhausted" by (rule Suc.IH)
  have "mark_on (Suc n) h (Some (2 * k)) =
      (case mark_on n h1 (head ob) of
         Inl e \<Rightarrow> Inl e
       | Inr h2 \<Rightarrow> (case fmlookup h2 (2 * k) of None \<Rightarrow> Inl MemFault
                    | Some ob2 \<Rightarrow> mark_on n h2 (tail ob2)))"
    unfolding mark_on.simps h1_def using ob(1,2,3) by (simp add: Let_def)
  also have "\<dots> = Inl StackExhausted" unfolding ob(4) r by simp
  finally show ?case .
qed

lemma head_chain_reach:
  assumes cl: "closed h" and top: "2 * k \<in> fmdom' h" and ch: "head_chain h k"
  shows "d \<le> k \<Longrightarrow> reach h (fmdom' h) (2 * k) (2 * (k - d))"
proof (induction d)
  case 0
  show ?case using top by (auto intro: reach.intros)
next
  case (Suc d)
  then have r: "reach h (fmdom' h) (2 * k) (2 * (k - d))" by simp
  have i: "0 < k - d \<and> k - d \<le> k" using Suc.prems by simp
  with ch obtain ob where ob: "fmlookup h (2 * (k - d)) = Some ob" "type ob = OBJ_PAIR"
    "head ob = Some (2 * (k - d - 1))"
    unfolding head_chain_def by blast
  then have e: "edge h (2 * (k - d)) (2 * (k - Suc d))" by (simp add: edge_def)
  then have "2 * (k - Suc d) \<in> fmdom' h" using cl by (rule edge_target_valid[rotated])
  with r e show ?case by (rule reach_snoc)
qed

lemma at_malloc_chain:
  assumes wf: "wf_vm vm" and st: "0 < stackSize vm" "stack vm 0 = Some (2 * k)"
    and ch: "head_chain (heap vm) k"
  shows "\<exists>vm1. at_malloc vm = Inr vm1 \<and> wf_vm vm1 \<and> stack vm1 = stack vm \<and>
           stackSize vm1 = stackSize vm \<and> head_chain (heap vm1) k \<and>
           fmdom' (heap vm1) \<subseteq> fmdom' (heap vm)"
proof (cases "numObjects vm = maxObjects vm")
  case False
  with wf ch show ?thesis by (simp add: at_malloc_def)
next
  case True
  have cl: "closed (heap vm)" using wf by (simp add: wf_vm_def)
  have "valid (heap vm) (stack vm 0)" using wf st(1) by (simp add: wf_vm_def)
  then have top: "2 * k \<in> fmdom' (heap vm)" by (auto simp: st(2) valid_iff fmlookup_dom'_iff)
  have "wf_vm (printf ''Auto gc is ran\<newline>'' vm)" using wf by simp
  from gc_spec[OF this] obtain vm1
    where g: "gc (printf ''Auto gc is ran\<newline>'' vm) = Inr vm1" and wf1: "wf_vm vm1"
    and d: "fmdom' (heap vm1) = roots_reach vm"
    and pres: "\<forall>c oc. c \<in> roots_reach vm \<longrightarrow> fmlookup (heap vm) c = Some oc \<longrightarrow>
              (\<exists>oc'. fmlookup (heap vm1) c = Some oc' \<and> same_payload oc oc')"
    and s1: "stack vm1 = stack vm" "stackSize vm1 = stackSize vm"
    unfolding roots_reach_printf printf_simps by blast
  have nomark: "markedset (heap vm1) = {}" using wf1 by (simp add: wf_vm_def)
  have "head_chain (heap vm1) k"
    unfolding head_chain_def
  proof (intro allI impI)
    fix i assume i: "0 < i \<and> i \<le> k"
    with ch obtain ob where ob: "fmlookup (heap vm) (2 * i) = Some ob" "type ob = OBJ_PAIR"
      "head ob = Some (2 * (i - 1))"
      unfolding head_chain_def by blast
    from head_chain_reach[OF cl top ch, of "k - i"] i
    have "reach (heap vm) (fmdom' (heap vm)) (2 * k) (2 * i)" by simp
    then have "2 * i \<in> roots_reach vm" unfolding roots_reach_iff using st by blast
    with pres ob(1) obtain ob' where ob': "fmlookup (heap vm1) (2 * i) = Some ob'"
      "same_payload ob ob'"
      by blast
    have "marked ob' = 0" using nomark ob'(1) by (auto simp: markedset_def)
    with ob' ob(2,3) show "\<exists>ob. fmlookup (heap vm1) (2 * i) = Some ob \<and> marked ob = 0 \<and>
        type ob = OBJ_PAIR \<and> head ob = Some (2 * (i - 1))"
      by (simp add: same_payload_def)
  qed
  moreover have "fmdom' (heap vm1) \<subseteq> fmdom' (heap vm)"
    unfolding d by (rule roots_reach_subset)
  ultimately show ?thesis using True g wf1 s1 by (simp add: at_malloc_def)
qed

lemma head_chain_fmupd:
  "head_chain h k \<Longrightarrow> 2 * k < a \<Longrightarrow> head_chain (fmupd a ob h) k"
  unfolding head_chain_def by auto

lemma chain_step:
  assumes r: "reachable vm" and st: "stackSize vm = 1" "stack vm 0 = Some (2 * k)"
    and ch: "head_chain (heap vm) k" and dom: "fmdom' (heap vm) \<subseteq> {..2 * k}"
  shows "\<exists>vm'. reachable vm' \<and> stackSize vm' = 1 \<and> stack vm' 0 = Some (2 * Suc k) \<and>
           head_chain (heap vm') (Suc k) \<and> fmdom' (heap vm') \<subseteq> {..2 * Suc k}"
proof -
  have wf: "wf_vm vm" using r by (rule reachable_wf)
  \<comment> \<open>pushInt\<close>
  from at_malloc_chain[OF wf _ st(2) ch] st(1) obtain vm1 where m1: "at_malloc vm = Inr vm1"
    and wf1: "wf_vm vm1" and s1: "stack vm1 = stack vm" "stackSize vm1 = stackSize vm"
    and ch1: "head_chain (heap vm1) k" and d1: "fmdom' (heap vm1) \<subseteq> fmdom' (heap vm)"
    by auto
  define a where "a = 2 * k + 1"
  have fresh1: "a \<notin> fmdom' (heap vm1)" using d1 dom by (auto simp: a_def)
  have ok1: "malloc_ok vm a" using fresh1 by (simp add: malloc_ok_def m1 fmdom'_alt_def)
  define o1 where "o1 = (cell vm1 OBJ_INT junk)\<lparr> value := 0 \<rparr>"
  define vm2 where "vm2 = linked vm1 a o1
      \<lparr> stack := (stack vm1)(stackSize vm1 := Some a), stackSize := stackSize vm1 + 1 \<rparr>"
  have lt: "stackSize vm1 < STACK_MAX" by (simp add: s1 st STACK_MAX_def)
  have p1: "pushInt vm 0 (Some (a, junk)) = Inr vm2"
    using pushInt_eq[OF m1 lt, of 0 a junk] by (simp add: vm2_def o1_def)
  have r2: "reachable vm2" using r ok1 p1 by (rule r_pushInt)
  have wf2: "wf_vm vm2" using r2 by (rule reachable_wf)
  have v2: "stackSize vm2 = 2" "stack vm2 0 = Some (2 * k)" "stack vm2 1 = Some a"
    "heap vm2 = fmupd a o1 (heap vm1)"
    by (simp_all add: vm2_def linked_def s1 st)
  have ch2: "head_chain (heap vm2) k"
    unfolding v2 using ch1 by (rule head_chain_fmupd) (simp add: a_def)
  have d2: "fmdom' (heap vm2) \<subseteq> {..2 * k + 1}"
    using d1 dom by (auto simp: v2 a_def)
  \<comment> \<open>pushPair\<close>
  from at_malloc_chain[OF wf2 _ v2(2) ch2] v2(1) obtain vm3 where m3: "at_malloc vm2 = Inr vm3"
    and wf3: "wf_vm vm3" and s3: "stack vm3 = stack vm2" "stackSize vm3 = stackSize vm2"
    and ch3: "head_chain (heap vm3) k" and d3: "fmdom' (heap vm3) \<subseteq> fmdom' (heap vm2)"
    by auto
  define b where "b = 2 * Suc k"
  have fresh3: "b \<notin> fmdom' (heap vm3)" using d3 d2 by (auto simp: b_def)
  have ok3: "malloc_ok vm2 b" using fresh3 by (simp add: malloc_ok_def m3 fmdom'_alt_def)
  define o3 where "o3 = (cell vm3 OBJ_PAIR junk)\<lparr> tail := stack vm3 (stackSize vm3 - 1),
      head := stack vm3 (stackSize vm3 - 2) \<rparr>"
  define vm4 where "vm4 = linked vm3 b o3
      \<lparr> stack := (stack vm3)(stackSize vm3 - 2 := Some b), stackSize := stackSize vm3 - 1 \<rparr>"
  have ge: "2 \<le> stackSize vm3" "stackSize vm3 \<le> STACK_MAX" by (simp_all add: s3 v2 STACK_MAX_def)
  have p3: "pushPair vm2 (Some (b, junk)) = Inr (vm4, Some b)"
    using pushPair_eq[OF m3 ge, of b junk] by (simp add: vm4_def o3_def)
  have r4: "reachable vm4" using r2 ok3 p3 by (rule r_pushPair)
  have v4: "stackSize vm4 = 1" "stack vm4 0 = Some b" "heap vm4 = fmupd b o3 (heap vm3)"
    by (simp_all add: vm4_def linked_def s3 v2)
  have o3f: "marked o3 = 0" "type o3 = OBJ_PAIR" "head o3 = Some (2 * k)"
    by (simp_all add: o3_def cell_def s3 v2)
  have "head_chain (fmupd b o3 (heap vm3)) k"
    using ch3 by (rule head_chain_fmupd) (simp add: b_def)
  then have ch4: "head_chain (heap vm4) (Suc k)"
    unfolding head_chain_def v4
  proof (intro allI impI)
    fix i assume c: "\<forall>i. 0 < i \<and> i \<le> k \<longrightarrow>
        (\<exists>ob. fmlookup (fmupd b o3 (heap vm3)) (2 * i) = Some ob \<and> marked ob = 0 \<and>
          type ob = OBJ_PAIR \<and> head ob = Some (2 * (i - 1)))"
      and i: "0 < i \<and> i \<le> Suc k"
    show "\<exists>ob. fmlookup (fmupd b o3 (heap vm3)) (2 * i) = Some ob \<and> marked ob = 0 \<and>
        type ob = OBJ_PAIR \<and> head ob = Some (2 * (i - 1))"
    proof (cases "i = Suc k")
      case True
      then show ?thesis using o3f by (simp add: b_def)
    next
      case False
      with i c show ?thesis by simp
    qed
  qed
  have d4: "fmdom' (heap vm4) \<subseteq> {..2 * Suc k}"
    using d3 d2 by (auto simp: v4 b_def)
  show ?thesis using r4 v4(1,2) ch4 d4 unfolding b_def by blast
qed

lemma chain_exists:
  "\<exists>vm. reachable vm \<and> stackSize vm = 1 \<and> stack vm 0 = Some (2 * k) \<and>
     head_chain (heap vm) k \<and> fmdom' (heap vm) \<subseteq> {..2 * k}"
proof (induction k)
  case 0
  have "stackSize one_int = 1" "stack one_int 0 = Some (2 * 0)" "head_chain (heap one_int) 0"
    "fmdom' (heap one_int) \<subseteq> {..2 * 0}"
    by (simp_all add: one_int_def head_chain_def)
  with reachable_one_int show ?case by blast
next
  case (Suc k)
  then obtain vm where "reachable vm" "stackSize vm = 1" "stack vm 0 = Some (2 * k)"
    "head_chain (heap vm) k" "fmdom' (heap vm) \<subseteq> {..2 * k}"
    by blast
  then show ?case by (rule chain_step)
qed

lemma native_stack_exhaustible:
  "\<exists>vm. reachable vm \<and> stackSize vm = 1 \<and> gc_on n vm = Inl StackExhausted"
proof -
  from chain_exists[of n] obtain vm where vm: "reachable vm" "stackSize vm = 1"
    "stack vm 0 = Some (2 * n)" "head_chain (heap vm) n"
    by blast
  have "mark_on n (heap vm) (stack vm 0) = Inl StackExhausted"
    unfolding vm(3) using vm(4) by (rule mark_on_head_chain) simp
  then have "gc_on n vm = Inl StackExhausted" by (rule gc_on_exhausted[rotated]) (simp add: vm(2))
  with vm(1,2) show ?thesis by blast
qed

section \<open>The claims\<close>

text \<open>
  C1. On every object graph whose pointers are all allocated (\<open>closed\<close>), cycles included,
  \<open>mark\<close> returns: it is a total function (its termination is proved on the number of
  unmarked objects), and its result is a heap, not a fault. The heap it returns has the
  same objects, and it differs from the heap it was given exactly in the mark of the
  objects that are reachable from the start through objects that were not marked
  (\<open>ureach\<close>): those are now marked, nothing else is changed. Started on a marked object
  it returns the heap unchanged. Whenever the marked objects are closed under edges (as
  at every call that \<open>markAll\<close> makes), the marked objects afterwards are those marked
  before together with exactly the objects reachable from the start; in particular, when
  no object is marked at the start, the objects it marks are exactly the reachable ones.
\<close>

theorem mark_marks_reachable:
  assumes "closed h" and "valid h p"
  shows "\<exists>h'. mark h p = Inr h' \<and> fmdom' h' = fmdom' h \<and>
           (\<forall>a ob. fmlookup h a = Some ob \<longrightarrow>
              fmlookup h' a = Some (if a \<in> ureach h p then ob\<lparr> marked := 1 \<rparr> else ob)) \<and>
           (\<forall>a ob. p = Some a \<longrightarrow> fmlookup h a = Some ob \<longrightarrow> marked ob \<noteq> 0 \<longrightarrow> h' = h) \<and>
           (marks_closed h \<longrightarrow> markedset h' = markedset h \<union> reachable_from h p) \<and>
           (markedset h = {} \<longrightarrow> markedset h' = reachable_from h p)"
proof -
  define h' where "h' = set_marks (ureach h p) h"
  have m: "mark h p = Inr h'" using mark_eq[OF assms] by (simp add: h'_def)
  have d: "fmdom' h' = fmdom' h" by (simp add: h'_def fmdom'_set_marks)
  have sub: "ureach h p \<subseteq> unmarked h"
    using reach_in by (fastforce simp: ureach_def split: option.splits)
  have l: "fmlookup h' a = Some (if a \<in> ureach h p then ob\<lparr> marked := 1 \<rparr> else ob)"
    if "fmlookup h a = Some ob" for a ob
    using that sub by (auto simp: h'_def lookup_set_marks unmarked_def)
  have n: "h' = h" if "p = Some a" "fmlookup h a = Some ob" "marked ob \<noteq> 0" for a ob
    using that by (simp add: h'_def ureach_marked set_marks_empty)
  have ms: "markedset h' = markedset h \<union> ureach h p"
    using sub unmarked_subset_dom[of h] by (auto simp: h'_def markedset_set_marks)
  have r: "markedset h' = markedset h \<union> reachable_from h p" if "marks_closed h"
    using marked_ureach_eq[OF that, of p] ms by simp
  have e: "markedset h' = reachable_from h p" if "markedset h = {}"
  proof -
    have "marks_closed h" using that by (simp add: marks_closed_def)
    from r[OF this] that show ?thesis by simp
  qed
  show ?thesis using m d l n r e by blast
qed

theorem mark_marks_reachable_witness:
  "closed cyclic_heap \<and> valid cyclic_heap (Some 0) \<and> markedset cyclic_heap = {} \<and>
   mark cyclic_heap (Some 0) = Inr cyclic_heap_marked \<and>
   markedset cyclic_heap_marked = {0, 1, 2} \<and>
   reachable_from cyclic_heap (Some 0) = {0, 1, 2} \<and>
   fmdom' cyclic_heap_marked = {0, 1, 2, 3} \<and>
   closed cyclic_heap_marked \<and> valid cyclic_heap_marked (Some 0) \<and>
   mark cyclic_heap_marked (Some 0) = Inr cyclic_heap_marked"
proof -
  have v: "valid cyclic_heap (Some 0)" "valid cyclic_heap_marked (Some 0)"
    by (simp_all add: valid_def cyclic_heap_def cyclic_heap_marked_def)
  have d: "fmdom' cyclic_heap_marked = {0, 1, 2, 3}"
    by (auto simp: cyclic_heap_marked_def)
  from mark_marks_reachable[OF closed_cyclic_heap(1) v(1)] markedset_cyclic_heap
  have r: "reachable_from cyclic_heap (Some 0) = {0, 1, 2}"
    by (auto simp: mark_cyclic_heap)
  have l: "fmlookup cyclic_heap_marked 0 =
      Some \<lparr> next = Some 1, marked = 1, type = OBJ_PAIR, value = 0, head = Some 1, tail = Some 0 \<rparr>"
    by (simp add: cyclic_heap_marked_def)
  from mark_marks_reachable[OF closed_cyclic_heap(2) v(2)] l
  have n: "mark cyclic_heap_marked (Some 0) = Inr cyclic_heap_marked"
    by fastforce
  show ?thesis
    using closed_cyclic_heap v markedset_cyclic_heap mark_cyclic_heap r d n by simp
qed

text \<open>
  C2. When the registry is a list \<open>as\<close> (null-terminated, through allocated objects),
  \<open>sweep\<close> returns a state in which: the registry is the list of the marked objects
  of \<open>as\<close>, in order (each unmarked one is unlinked); the unmarked objects of \<open>as\<close>
  are no longer allocated; \<open>numObjects\<close> has gone down by their number; each marked
  object of \<open>as\<close> has its mark cleared and its type, value, head and tail unchanged;
  objects outside the registry, the stack, its size and \<open>maxObjects\<close> are unchanged,
  and nothing is printed.
\<close>

theorem sweep_reclaims_unmarked:
  assumes "is_list (heap vm) (firstObject vm) as"
  shows "\<exists>vm'. sweep vm = Inr vm' \<and>
           is_list (heap vm') (firstObject vm') (filter (\<lambda>a. a \<in> markedset (heap vm)) as) \<and>
           fmdom' (heap vm') = fmdom' (heap vm) - (set as \<inter> unmarked (heap vm)) \<and>
           numObjects vm' =
             numObjects vm - of_nat (length (filter (\<lambda>a. a \<in> unmarked (heap vm)) as)) \<and>
           (\<forall>a ob. a \<in> set as \<longrightarrow> fmlookup (heap vm) a = Some ob \<longrightarrow> marked ob \<noteq> 0 \<longrightarrow>
              (\<exists>ob'. fmlookup (heap vm') a = Some ob' \<and> marked ob' = 0 \<and> same_payload ob ob')) \<and>
           (\<forall>a. a \<notin> set as \<longrightarrow> fmlookup (heap vm') a = fmlookup (heap vm) a) \<and>
           stack vm' = stack vm \<and> stackSize vm' = stackSize vm \<and> maxObjects vm' = maxObjects vm \<and>
           stdout vm' = stdout vm"
proof -
  from sweep_swept[OF assms] obtain vm' where res: "sweep vm = Inr vm'"
    and sw: "swept vm FirstObjectOf as vm'"
    by blast
  have li: "is_list (heap vm') (firstObject vm') (filter (\<lambda>a. a \<in> markedset (heap vm)) as)"
    using swept_list[OF sw] by simp
  have kept: "\<exists>ob'. fmlookup (heap vm') a = Some ob' \<and> marked ob' = 0 \<and> same_payload ob ob'"
    if "a \<in> set as" "fmlookup (heap vm) a = Some ob" "marked ob \<noteq> 0" for a ob
    using sw that by (rule swept_kept)
  have other: "fmlookup (heap vm') a = fmlookup (heap vm) a" if "a \<notin> set as" for a
    using sw that by (rule swept_other)
  show ?thesis
    using res li swept_dom[OF sw] swept_count[OF sw] swept_frame[OF sw] kept other by blast
qed

theorem sweep_reclaims_unmarked_witness:
  "is_list (heap sweep_example) (firstObject sweep_example) [2, 1, 0] \<and>
   (\<exists>vm'. sweep sweep_example = Inr vm' \<and>
      is_list (heap vm') (firstObject vm') [2, 0] \<and>
      fmdom' (heap vm') = {0, 2} \<and>
      numObjects vm' = 2)"
proof -
  have l: "is_list (heap sweep_example) (firstObject sweep_example) [2, 1, 0]"
    by (simp add: sweep_example_def)
  have m: "filter (\<lambda>a. a \<in> markedset (heap sweep_example)) [2, 1, 0] = [2, 0]"
    by (simp add: markedset_def sweep_example_def)
  have u: "filter (\<lambda>a. a \<in> unmarked (heap sweep_example)) [2, 1, 0] = [1]"
    "set [2, 1, 0] \<inter> unmarked (heap sweep_example) = {1}"
    by (auto simp: unmarked_def sweep_example_def)
  have d: "fmdom' (heap sweep_example) - {1} = {0, 2}" "numObjects sweep_example = 3"
    by (auto simp: sweep_example_def)
  from sweep_reclaims_unmarked[OF l] show ?thesis
    unfolding m u d using l by auto
qed

text \<open>
  C3. \<open>newObject\<close> compares \<open>numObjects\<close> with \<open>maxObjects\<close>. When they differ it
  allocates on the state it was given: nothing is collected and nothing is printed. When
  they are equal it prints its line and runs \<open>gc\<close> first: if \<open>gc\<close> fails so does
  \<open>newObject\<close>, otherwise it allocates on the state \<open>gc\<close> returned, whose output ends
  with that line. To allocate (\<open>allocates\<close>) is to return the pointer to the new cell,
  which has the requested type and a clear mark, whose \<open>next\<close> is the old
  \<open>firstObject\<close> and whose other fields are as \<open>malloc\<close> left them;
  \<open>firstObject\<close> is the new cell, so that a registry list \<open>as\<close> becomes \<open>a # as\<close>;
  \<open>numObjects\<close> is one more; every other object, the stack, its size, \<open>maxObjects\<close>
  and the output are unchanged. Here \<open>malloc\<close> has returned a block \<open>raw\<close> at \<open>a\<close>.
\<close>

theorem newObject_collects_when_due_then_allocates:
  "(numObjects vm \<noteq> maxObjects vm \<longrightarrow>
      allocates vm ty a raw (newObject vm ty (Some (a, raw)))) \<and>
   (numObjects vm = maxObjects vm \<longrightarrow>
      (case gc (printf ''Auto gc is ran\<newline>'' vm) of
         Inl e \<Rightarrow> newObject vm ty (Some (a, raw)) = Inl e
       | Inr vm1 \<Rightarrow>
           allocates vm1 ty a raw (newObject vm ty (Some (a, raw))) \<and>
           stdout vm1 = stdout vm @ ''Auto gc is ran\<newline>''))"
proof (cases "numObjects vm = maxObjects vm")
  case False
  then have "newObject vm ty (Some (a, raw)) = Inr (linked vm a (cell vm ty raw), Some a)"
    by (simp add: newObject_eq at_malloc_def)
  then show ?thesis using False allocates_linked[of vm ty a raw] by simp
next
  case True
  then have due: "at_malloc vm = gc (printf ''Auto gc is ran\<newline>'' vm)"
    by (simp add: at_malloc_def)
  show ?thesis
  proof (cases "gc (printf ''Auto gc is ran\<newline>'' vm)")
    case (Inl e)
    then show ?thesis using True due by (simp add: newObject_eq)
  next
    case (Inr vm1)
    then have "newObject vm ty (Some (a, raw)) = Inr (linked vm1 a (cell vm1 ty raw), Some a)"
      using due by (simp add: newObject_eq)
    moreover have "stdout vm1 = stdout vm @ ''Auto gc is ran\<newline>''"
      using gc_stdout[OF Inr] by simp
    ultimately show ?thesis using True Inr allocates_linked[of vm1 ty a raw] by simp
  qed
qed

theorem newObject_collects_when_due_then_allocates_witness:
  "numObjects due_vm = maxObjects due_vm \<and>
   gc (printf ''Auto gc is ran\<newline>'' due_vm) =
     Inr (printf ''Auto gc is ran\<newline>'' due_vm_collected) \<and>
   allocates (printf ''Auto gc is ran\<newline>'' due_vm_collected) OBJ_PAIR 2 junk
     (newObject due_vm OBJ_PAIR (Some (2, junk))) \<and>
   numObjects one_int \<noteq> maxObjects one_int \<and>
   allocates one_int OBJ_INT 1 junk (newObject one_int OBJ_INT (Some (1, junk)))"
proof -
  have d: "numObjects due_vm = maxObjects due_vm" by (simp add: due_vm_def)
  have n: "numObjects one_int \<noteq> maxObjects one_int" by (simp add: one_int_def)
  note g = gc_printf[of "''Auto gc is ran\<newline>''" due_vm, unfolded gc_due_vm, simplified]
  from newObject_collects_when_due_then_allocates[of due_vm OBJ_PAIR 2 junk] d g
  have "allocates (printf ''Auto gc is ran\<newline>'' due_vm_collected) OBJ_PAIR 2 junk
     (newObject due_vm OBJ_PAIR (Some (2, junk)))"
    by simp
  moreover from newObject_collects_when_due_then_allocates[of one_int OBJ_INT 1 junk] n
  have "allocates one_int OBJ_INT 1 junk (newObject one_int OBJ_INT (Some (1, junk)))" by simp
  ultimately show ?thesis using d n g by simp
qed

text \<open>
  C4. On a well-formed state, \<open>gc\<close> is three steps in this order. \<open>markAll\<close> returns the
  state in which exactly the objects reachable from the stack entries have been marked.
  \<open>sweep\<close> runs on that state and leaves exactly those objects allocated. The result of
  \<open>gc\<close> is the state \<open>sweep\<close> returned with \<open>maxObjects\<close> set to twice its
  \<open>numObjects\<close>. The stack and its size are the same after each step, and no step
  allocates.
\<close>

theorem gc_marks_sweeps_rescales:
  assumes "wf_vm vm"
  shows "\<exists>vm1 vm2. markAll vm = Inr vm1 \<and>
           (\<forall>a ob. fmlookup (heap vm) a = Some ob \<longrightarrow>
              fmlookup (heap vm1) a = Some (if a \<in> roots_reach vm then ob\<lparr> marked := 1 \<rparr> else ob)) \<and>
           sweep vm1 = Inr vm2 \<and>
           gc vm = Inr (vm2\<lparr> maxObjects := numObjects vm2 * 2 \<rparr>) \<and>
           stack vm1 = stack vm \<and> stackSize vm1 = stackSize vm \<and>
           stack vm2 = stack vm \<and> stackSize vm2 = stackSize vm \<and>
           fmdom' (heap vm1) = fmdom' (heap vm) \<and> fmdom' (heap vm2) = roots_reach vm"
proof -
  from assms have nomark: "markedset (heap vm) = {}" and cl: "closed (heap vm)"
    and roots: "\<forall>j. j < stackSize vm \<longrightarrow> valid (heap vm) (stack vm j)"
    by (simp_all add: wf_vm_def)
  define vm1 where "vm1 = vm\<lparr> heap := set_marks (roots_reach vm) (heap vm) \<rparr>"
  have mc: "marks_closed (heap vm)" using nomark by (simp add: marks_closed_def)
  have m: "markAll vm = Inr vm1"
    using markAll_eq[OF cl mc] roots by (simp add: vm1_def)
  have look: "fmlookup (heap vm1) a = Some (if a \<in> roots_reach vm then ob\<lparr> marked := 1 \<rparr> else ob)"
    if "fmlookup (heap vm) a = Some ob" for a ob
  proof -
    have "marked ob = 0" using nomark that by (auto simp: markedset_def)
    then show ?thesis using that by (simp add: vm1_def lookup_set_marks)
  qed
  from gc_spec[OF assms] obtain vm' where g: "gc vm = Inr vm'"
    and d: "fmdom' (heap vm') = roots_reach vm"
    and st: "stack vm' = stack vm" "stackSize vm' = stackSize vm"
    by blast
  from g m obtain vm2 where s: "sweep vm1 = Inr vm2"
    and v: "vm' = vm2\<lparr> maxObjects := numObjects vm2 * 2 \<rparr>"
    by (auto simp: gc_def split: sum.splits)
  have "stack vm2 = stack vm" "stackSize vm2 = stackSize vm" "fmdom' (heap vm2) = roots_reach vm"
    using d st by (simp_all add: v)
  moreover have "stack vm1 = stack vm" "stackSize vm1 = stackSize vm"
    "fmdom' (heap vm1) = fmdom' (heap vm)"
    by (simp_all add: vm1_def fmdom'_set_marks)
  ultimately show ?thesis using m look s g v by blast
qed

theorem gc_marks_sweeps_rescales_witness:
  "wf_vm due_vm \<and> gc due_vm = Inr due_vm_collected \<and> roots_reach due_vm = {0, 1} \<and>
   fmdom' (heap due_vm) = {0, 1, 2} \<and>
   numObjects due_vm_collected = 2 \<and> maxObjects due_vm_collected = 4 \<and>
   (\<exists>vm1 vm2. markAll due_vm = Inr vm1 \<and> markedset (heap vm1) = {0, 1} \<and>
      sweep vm1 = Inr vm2 \<and> fmdom' (heap vm2) = {0, 1} \<and>
      due_vm_collected = vm2\<lparr> maxObjects := numObjects vm2 * 2 \<rparr> \<and>
      stack vm2 = stack due_vm \<and> stackSize vm2 = stackSize due_vm)"
proof -
  from gc_marks_sweeps_rescales[OF wf_due_vm] obtain vm1 vm2 where
    m: "markAll due_vm = Inr vm1"
    and l: "\<forall>a ob. fmlookup (heap due_vm) a = Some ob \<longrightarrow>
        fmlookup (heap vm1) a = Some (if a \<in> roots_reach due_vm then ob\<lparr> marked := 1 \<rparr> else ob)"
    and s: "sweep vm1 = Inr vm2"
    and g: "due_vm_collected = vm2\<lparr> maxObjects := numObjects vm2 * 2 \<rparr>"
    and st: "stack vm2 = stack due_vm" "stackSize vm2 = stackSize due_vm"
    and d1: "fmdom' (heap vm1) = fmdom' (heap due_vm)"
    and d2: "fmdom' (heap vm2) = roots_reach due_vm"
    unfolding gc_due_vm by auto
  have dc: "fmdom' (heap due_vm_collected) = {0, 1}" "numObjects due_vm_collected = 2"
    "maxObjects due_vm_collected = 4"
    by (auto simp: due_vm_collected_def)
  have "fmdom' (heap due_vm_collected) = fmdom' (heap vm2)" by (simp add: g)
  with d2 dc(1) have rr: "roots_reach due_vm = {0, 1}" by simp
  have dd: "fmdom' (heap due_vm) = {0, 1, 2}" by (auto simp: due_vm_def)
  have lk: "fmlookup (heap due_vm) 0 = Some (int_cell None 5)"
    "fmlookup (heap due_vm) 1 = Some (int_cell (Some 0) 6)"
    "fmlookup (heap due_vm) 2 = Some (int_cell (Some 1) 7)"
    by (simp_all add: due_vm_def)
  have lk1: "fmlookup (heap vm1) 0 = Some ((int_cell None 5)\<lparr> marked := 1 \<rparr>)"
    "fmlookup (heap vm1) 1 = Some ((int_cell (Some 0) 6)\<lparr> marked := 1 \<rparr>)"
    "fmlookup (heap vm1) 2 = Some (int_cell (Some 1) 7)"
    using l lk by (simp_all add: rr)
  have mk: "markedset (heap vm1) = {0, 1}"
  proof (intro set_eqI iffI)
    fix a assume "a \<in> markedset (heap vm1)"
    then obtain ob where ob: "fmlookup (heap vm1) a = Some ob" "marked ob \<noteq> 0"
      by (auto simp: markedset_def)
    from fmdom'I[OF ob(1)] have "a = 0 \<or> a = 1 \<or> a = 2" by (simp add: d1 dd)
    moreover have "a \<noteq> 2" using ob lk1(3) by (auto simp: int_cell_def)
    ultimately show "a \<in> {0, 1}" by auto
  next
    fix a :: nat assume "a \<in> {0, 1}"
    then show "a \<in> markedset (heap vm1)"
      using lk1(1,2) by (auto simp: markedset_def int_cell_def)
  qed
  show ?thesis
    using wf_due_vm gc_due_vm rr dd dc m mk s d2 g st by auto
qed

text \<open>
  C5. On a well-formed state, with a block that \<open>malloc\<close> may return (any contents
  \<open>raw\<close>, at an address \<open>a\<close> that is not allocated): when the
  stack holds at least two entries, \<open>pushPair\<close> returns the pointer to a new
  \<open>OBJ_PAIR\<close> object whose tail is the top entry (the first popped) and whose head is
  the entry below it (the second popped); both entries are gone from the stack, the new
  pair is on top, the entries below are unchanged and the stack is one shorter. With
  fewer than two entries \<open>pushPair\<close> ends in the fatal \<open>Stack underflow!\<close>.
\<close>

theorem pushPair_pops_two_pushes_pair:
  assumes "wf_vm vm" and "malloc_ok vm a"
  shows "(2 \<le> stackSize vm \<longrightarrow>
            (\<exists>vm' ob. pushPair vm (Some (a, raw)) = Inr (vm', Some a) \<and>
               stackSize vm' = stackSize vm - 1 \<and>
               stack vm' (stackSize vm - 2) = Some a \<and>
               (\<forall>j. j < stackSize vm - 2 \<longrightarrow> stack vm' j = stack vm j) \<and>
               fmlookup (heap vm') a = Some ob \<and> type ob = OBJ_PAIR \<and> marked ob = 0 \<and>
               tail ob = stack vm (stackSize vm - 1) \<and>
               head ob = stack vm (stackSize vm - 2) \<and>
               wf_vm vm')) \<and>
         (stackSize vm < 2 \<longrightarrow> pushPair vm (Some (a, raw)) = Inl (Exit ''Stack underflow!''))"
proof -
  from wf_at_malloc[OF assms(1)] obtain vm1 where m: "at_malloc vm = Inr vm1"
    and wf1: "wf_vm vm1" and st: "stack vm1 = stack vm" "stackSize vm1 = stackSize vm"
    by blast
  have sz: "stackSize vm1 \<le> STACK_MAX" using wf1 by (simp add: wf_vm_def)
  have under: "pushPair vm (Some (a, raw)) = Inl (Exit ''Stack underflow!'')" if "stackSize vm < 2"
    using pushPair_underflow[OF m] that by (simp add: st)
  have ok: "\<exists>vm' ob. pushPair vm (Some (a, raw)) = Inr (vm', Some a) \<and>
               stackSize vm' = stackSize vm - 1 \<and>
               stack vm' (stackSize vm - 2) = Some a \<and>
               (\<forall>j. j < stackSize vm - 2 \<longrightarrow> stack vm' j = stack vm j) \<and>
               fmlookup (heap vm') a = Some ob \<and> type ob = OBJ_PAIR \<and> marked ob = 0 \<and>
               tail ob = stack vm (stackSize vm - 1) \<and>
               head ob = stack vm (stackSize vm - 2) \<and>
               wf_vm vm'"
    if ge: "2 \<le> stackSize vm"
  proof -
    have ge1: "2 \<le> stackSize vm1" using ge by (simp add: st)
    note eq = pushPair_eq[OF m ge1 sz, of a raw]
    have "wf_vm (fst (projr (pushPair vm (Some (a, raw)))))"
      using wf_pushPair[OF assms, of raw] eq by simp
    then show ?thesis
      unfolding eq by (simp add: st linked_def cell_def)
  qed
  show ?thesis using ok under by blast
qed

theorem pushPair_pops_two_pushes_pair_witness:
  "wf_vm due_vm \<and> malloc_ok due_vm 2 \<and> 2 \<le> stackSize due_vm \<and>
   (\<exists>vm' ob. pushPair due_vm (Some (2, junk)) = Inr (vm', Some 2) \<and> stackSize vm' = 1 \<and>
      stack vm' 0 = Some 2 \<and> fmlookup (heap vm') 2 = Some ob \<and> type ob = OBJ_PAIR \<and>
      tail ob = Some 1 \<and> head ob = Some 0)"
proof -
  have ok: "malloc_ok due_vm 2" by (rule malloc_ok_due_vm)
  have s: "stackSize due_vm = 2" "stack due_vm 0 = Some 0" "stack due_vm 1 = Some 1"
    by (simp_all add: due_vm_def)
  from pushPair_pops_two_pushes_pair[OF wf_due_vm ok, of junk] s wf_due_vm ok
  show ?thesis by auto
qed



text \<open>
  C7. In every reachable state a collection succeeds, and a second collection right after
  it succeeds too and returns the very state the first one returned: the same heap (no
  object is freed, every mark is clear again) and the same \<open>numObjects\<close>.
\<close>

theorem second_gc_reclaims_nothing:
  assumes "reachable vm"
  shows "\<exists>vm' vm''. gc vm = Inr vm' \<and> gc vm' = Inr vm'' \<and> vm'' = vm' \<and>
           heap vm'' = heap vm' \<and> numObjects vm'' = numObjects vm'"
proof -
  have wf: "wf_vm vm" using assms by (rule reachable_wf)
  from gc_spec[OF wf] obtain vm' where g: "gc vm = Inr vm'" by blast
  with gc_twice[OF wf g] show ?thesis by blast
qed

theorem second_gc_reclaims_nothing_witness:
  "reachable (projr test4_setup) \<and> numObjects (projr test4_setup) = 6 \<and>
   (\<exists>vm'. gc (projr test4_setup) = Inr vm' \<and> numObjects vm' = 4 \<and> gc vm' = Inr vm')"
proof -
  from reachable_test4_setup obtain vm where vm: "test4_setup = Inr vm" "reachable vm"
    by blast
  from test4_asserts[unfolded vm(1)] obtain vm' where a: "numObjects vm = 6" "gc vm = Inr vm'"
    "numObjects vm' = 4"
    by auto
  from second_gc_reclaims_nothing[OF vm(2)] a(2) have t: "gc vm' = Inr vm'" by auto
  have p: "projr test4_setup = vm" by (simp add: vm(1))
  show ?thesis unfolding p using vm(2) a t by blast
qed

text \<open>
  C8. In every reachable state (the states between the operations of the machine, never
  inside a collection), every allocated object has its mark clear.
\<close>

theorem marks_clear_between_cycles:
  assumes "reachable vm" and "fmlookup (heap vm) a = Some ob"
  shows "marked ob = 0"
proof -
  have "markedset (heap vm) = {}" using reachable_wf[OF assms(1)] by (simp add: wf_vm_def)
  with assms(2) show ?thesis by (auto simp: markedset_def)
qed

theorem marks_clear_between_cycles_witness:
  "reachable (projr (andthen test4_setup gc)) \<and>
   (\<exists>ob. fmlookup (heap (projr (andthen test4_setup gc))) 12 = Some ob \<and>
      type ob = OBJ_PAIR \<and> tail ob = Some 15 \<and> marked ob = 0)"
proof -
  from reachable_test4_setup obtain vm where vm: "test4_setup = Inr vm" "reachable vm"
    by blast
  from test4_asserts[unfolded vm(1)] obtain vm' where g: "gc vm = Inr vm'" by auto
  have r: "reachable vm'" using vm(2) g by (rule r_gc)
  have p: "projr (andthen test4_setup gc) = vm'" by (simp add: andthen_def vm(1) g)
  have "\<exists>ob. fmlookup (heap (projr (andthen test4_setup gc))) 12 = Some ob \<and>
      type ob = OBJ_PAIR \<and> tail ob = Some 15"
    by (simp add: test4_setup_def run_defs)
  then obtain ob where l: "fmlookup (heap vm') 12 = Some ob" "type ob = OBJ_PAIR"
    "tail ob = Some 15"
    unfolding p by blast
  from marks_clear_between_cycles[OF r l(1)] r l show ?thesis unfolding p by blast
qed

text \<open>
  C9, amended. The conditions the code checks are the two of \<open>assert\<close>: \<open>push\<close> and
  \<open>pushInt\<close> fail exactly when the stack holds \<open>STACK_MAX\<close> entries, \<open>pop\<close> exactly
  when it is empty, \<open>pushPair\<close> exactly when it holds fewer than two; the failure is the
  message \<open>Stack overflow!\<close> or \<open>Stack underflow!\<close> and the end of the process, which
  leaves no state behind. On a well-formed state no other operation fails as long as
  memory lasts, that is, when \<open>malloc\<close> returns a block and the native stack has room
  for more activations of \<open>mark\<close> than there are objects allocated: then \<open>mark\<close> on a
  stack entry, \<open>markAll\<close>, \<open>sweep\<close>, \<open>gc\<close>, \<open>freeVM\<close> (which frees every object)
  and \<open>newObject\<close> return a result. The code checks neither resource: when \<open>malloc\<close>
  returns \<open>NULL\<close>, \<open>newVM\<close>, \<open>newObject\<close>, \<open>pushInt\<close> and \<open>pushPair\<close> end in a
  memory fault, whatever the stack holds.
\<close>

theorem fatal_only_by_stack_misuse_or_exhaustion:
  assumes "wf_vm vm" and "card (fmdom' (heap vm)) < n"
  shows "(\<forall>j. j < stackSize vm \<longrightarrow> (\<exists>h'. mark_on n (heap vm) (stack vm j) = Inr h')) \<and>
         (\<exists>vm'. markAll_on n vm = Inr vm') \<and>
         (\<exists>vm'. sweep vm = Inr vm') \<and>
         (\<exists>vm'. gc_on n vm = Inr vm') \<and>
         freeVM_on n vm = Inr fmempty \<and>
         (\<exists>vm'. newObject_on n vm ty (Some (a, raw)) = Inr (vm', Some a)) \<and>
         newObject_on n vm ty None = Inl MemFault \<and>
         (\<forall>e. push vm p = Inl e \<longleftrightarrow> stackSize vm = STACK_MAX \<and> e = Exit ''Stack overflow!'') \<and>
         (\<forall>e. pop vm = Inl e \<longleftrightarrow> stackSize vm = 0 \<and> e = Exit ''Stack underflow!'') \<and>
         (\<forall>e. pushInt_on n vm v (Some (a, raw)) = Inl e \<longleftrightarrow>
              stackSize vm = STACK_MAX \<and> e = Exit ''Stack overflow!'') \<and>
         pushInt_on n vm v None = Inl MemFault \<and>
         (\<forall>e. pushPair_on n vm (Some (a, raw)) = Inl e \<longleftrightarrow>
              stackSize vm < 2 \<and> e = Exit ''Stack underflow!'') \<and>
         pushPair_on n vm None = Inl MemFault \<and>
         newVM None = Inl MemFault \<and>
         (\<exists>vm0. newVM (Some slots) = Inr vm0)"
proof -
  from assms(1) obtain as where as: "is_list (heap vm) (firstObject vm) as"
    and nomark: "markedset (heap vm) = {}" and cl: "closed (heap vm)"
    and roots: "\<forall>j. j < stackSize vm \<longrightarrow> valid (heap vm) (stack vm j)"
    and sz: "stackSize vm \<le> STACK_MAX"
    unfolding wf_vm_def by blast
  have un: "card (unmarked (heap vm)) < n"
    using card_unmarked_le[of "heap vm"] assms(2) by simp
  note on = mark_on_eq[OF un] markAll_from_on_eq[OF un] gc_on_eq[OF assms(2)]
    freeVM_on_eq[OF assms(2)] newObject_on_eq[OF assms(2)] pushInt_on_eq[OF assms(2)]
    pushPair_on_eq[OF assms(2)]
  have mc: "marks_closed (heap vm)" using nomark by (simp add: marks_closed_def)
  have c1: "\<forall>j. j < stackSize vm \<longrightarrow> (\<exists>h'. mark_on n (heap vm) (stack vm j) = Inr h')"
    unfolding on using mark_eq[OF cl] roots by blast
  have c2: "\<exists>vm'. markAll_on n vm = Inr vm'"
    unfolding markAll_on_def on using markAll_eq[OF cl mc] roots by (simp add: markAll_def)
  have c3: "\<exists>vm'. sweep vm = Inr vm'" using sweep_swept[OF as] by blast
  have c4: "\<exists>vm'. gc_on n vm = Inr vm'" unfolding on using gc_spec[OF assms(1)] by blast
  have c4': "freeVM_on n vm = Inr fmempty" unfolding on using assms(1) by (rule freeVM_frees_all)
  from wf_at_malloc[OF assms(1)] obtain vm1 where m: "at_malloc vm = Inr vm1"
    and st: "stackSize vm1 = stackSize vm" and wf1: "wf_vm vm1"
    by blast
  have sz1: "stackSize vm1 \<le> STACK_MAX" using sz st by simp
  have c5: "\<exists>vm'. newObject_on n vm ty (Some (a, raw)) = Inr (vm', Some a)"
    unfolding on by (simp add: newObject_eq m)
  have c5': "newObject_on n vm ty None = Inl MemFault"
    unfolding on by (simp add: newObject_null m)
  have c6: "push vm p = Inl e \<longleftrightarrow> stackSize vm = STACK_MAX \<and> e = Exit ''Stack overflow!''" for e
    using sz push_ok[of vm p] push_overflow[of vm p]
    by (cases "stackSize vm < STACK_MAX") auto
  have c7: "pop vm = Inl e \<longleftrightarrow> stackSize vm = 0 \<and> e = Exit ''Stack underflow!''" for e
    using pop_ok[of vm] pop_underflow[of vm] by (cases "stackSize vm = 0") auto
  have c8: "pushInt_on n vm v (Some (a, raw)) = Inl e \<longleftrightarrow>
      stackSize vm = STACK_MAX \<and> e = Exit ''Stack overflow!''" for e
    unfolding on
    using sz1 pushInt_eq[OF m, of v a raw] pushInt_overflow[OF m, of v a raw] st
    by (cases "stackSize vm1 < STACK_MAX") auto
  have c8': "pushInt_on n vm v None = Inl MemFault"
    unfolding on by (simp add: pushInt_null m)
  have c9: "pushPair_on n vm (Some (a, raw)) = Inl e \<longleftrightarrow>
      stackSize vm < 2 \<and> e = Exit ''Stack underflow!''" for e
    unfolding on
    using pushPair_eq[OF m _ sz1, of a raw] pushPair_underflow[OF m, of a raw] st
    by (cases "stackSize vm1 < 2") auto
  have c9': "pushPair_on n vm None = Inl MemFault"
    unfolding on by (simp add: pushPair_null m)
  have c10: "newVM None = Inl MemFault" "\<exists>vm0. newVM (Some slots) = Inr vm0"
    by (simp_all add: newVM_def)
  show ?thesis using c1 c2 c3 c4 c4' c5 c5' c6 c7 c8 c8' c9 c9' c10 by blast
qed

theorem fatal_only_by_stack_misuse_or_exhaustion_witness:
  "wf_vm full_vm \<and> card (fmdom' (heap full_vm)) < 2 \<and>
   push full_vm (Some 0) = Inl (Exit ''Stack overflow!'') \<and>
   pushInt_on 2 full_vm 4 (Some (1, junk)) = Inl (Exit ''Stack overflow!'') \<and>
   pushInt_on 2 full_vm 4 None = Inl MemFault \<and>
   (\<exists>vm'. gc_on 2 full_vm = Inr vm') \<and>
   freeVM_on 2 full_vm = Inr fmempty \<and>
   wf_vm empty_vm \<and> card (fmdom' (heap empty_vm)) < 1 \<and>
   pop empty_vm = Inl (Exit ''Stack underflow!'') \<and>
   pushPair_on 1 empty_vm (Some (0, junk)) = Inl (Exit ''Stack underflow!'') \<and>
   pushPair_on 1 empty_vm None = Inl MemFault"
proof -
  have f: "stackSize full_vm = STACK_MAX" "card (fmdom' (heap full_vm)) < 2"
    by (simp_all add: full_vm_def STACK_MAX_def)
  have n: "stackSize empty_vm = 0" "card (fmdom' (heap empty_vm)) < 1"
    by (simp_all add: empty_vm_def)
  from fatal_only_by_stack_misuse_or_exhaustion[OF wf_full_vm f(2), of _ 1 junk "Some 0" 4] f(1)
  have "push full_vm (Some 0) = Inl (Exit ''Stack overflow!'')"
    "pushInt_on 2 full_vm 4 (Some (1, junk)) = Inl (Exit ''Stack overflow!'')"
    "pushInt_on 2 full_vm 4 None = Inl MemFault"
    "\<exists>vm'. gc_on 2 full_vm = Inr vm'" "freeVM_on 2 full_vm = Inr fmempty"
    by blast+
  moreover
  from fatal_only_by_stack_misuse_or_exhaustion[OF wf_empty_vm n(2), of _ 0 junk None] n(1)
  have "pop empty_vm = Inl (Exit ''Stack underflow!'')"
    "pushPair_on 1 empty_vm (Some (0, junk)) = Inl (Exit ''Stack underflow!'')"
    "pushPair_on 1 empty_vm None = Inl MemFault"
    by simp_all
  ultimately show ?thesis using wf_full_vm wf_empty_vm f(2) n(2) by blast
qed

text \<open>
  C9 as the specification states it (the two stack conditions are the only fatal ones,
  no other operation of the core fails) does not hold of main.c. When \<open>malloc\<close> returns
  \<open>NULL\<close>, \<open>newVM\<close> ends in a memory fault, and so do \<open>pushInt\<close> on a new machine
  and \<open>pushPair\<close> on a stack of one entry, before the stack is looked at. And on the
  state that four \<open>pushInt\<close> and three \<open>pushPair\<close> and one more \<open>pushInt\<close> build (eight
  objects, a collection due, two stack entries), \<open>mark\<close> needs four activations: on a
  native stack with room for three, \<open>gc\<close> and the next \<open>pushInt\<close> end the process,
  with a stack that is neither full nor empty. Whatever the room, \<open>pushInt\<close> and
  \<open>pushPair\<close> build a state on which \<open>gc\<close> exceeds it: a chain of \<open>n\<close> pairs needs
  more than \<open>n\<close> activations (\<open>native_stack_exhaustible\<close>).
\<close>

theorem exhaustion_is_fatal_too:
  "newVM None = Inl MemFault \<and>
   reachable empty_vm \<and> stackSize empty_vm = 0 \<and>
   pushInt empty_vm 1 None = Inl MemFault \<and>
   reachable one_int \<and> stackSize one_int = 1 \<and>
   pushPair one_int None = Inl MemFault \<and>
   reachable (projr deep_chain) \<and> stackSize (projr deep_chain) = 2 \<and>
   fmdom' (heap (projr deep_chain)) = {10, 11, 12, 13, 14, 15, 16, 17} \<and>
   gc_on 3 (projr deep_chain) = Inl StackExhausted \<and>
   pushInt_on 3 (projr deep_chain) 6 (Some (18, junk)) = Inl StackExhausted \<and>
   MemFault \<noteq> Exit ''Stack overflow!'' \<and> MemFault \<noteq> Exit ''Stack underflow!'' \<and>
   StackExhausted \<noteq> Exit ''Stack overflow!'' \<and> StackExhausted \<noteq> Exit ''Stack underflow!''"
proof -
  from reachable_deep_chain obtain vm where vm: "deep_chain = Inr vm" "reachable vm" by blast
  have p: "projr deep_chain = vm" by (simp add: vm(1))
  from deep_chain_state have st: "stackSize vm = 2" "stack vm 0 = Some 16"
    "numObjects vm = 8" "maxObjects vm = 8" "heap vm = deep_heap"
    by (simp_all add: vm(1))
  have a: "pushInt empty_vm 1 None = Inl MemFault"
    by (simp add: pushInt_null at_malloc_def empty_vm_def)
  have b: "pushPair one_int None = Inl MemFault"
    by (simp add: pushPair_null at_malloc_def one_int_def)
  have g: "gc_on 3 vm = Inl StackExhausted"
    by (rule gc_on_exhausted) (simp_all add: st mark_on_deep_heap)
  have g': "gc_on 3 (printf ''Auto gc is ran\<newline>'' vm) = Inl StackExhausted"
    by (rule gc_on_exhausted) (simp_all add: st mark_on_deep_heap)
  have c: "pushInt_on 3 vm 6 (Some (18, junk)) = Inl StackExhausted"
    by (simp add: pushInt_on_def newObject_on_def st g')
  have d: "fmdom' (heap vm) = {10, 11, 12, 13, 14, 15, 16, 17}"
    by (simp add: st dom_deep_heap)
  have e: "newVM None = Inl MemFault" "stackSize empty_vm = 0" "stackSize one_int = 1"
    by (simp_all add: newVM_def empty_vm_def one_int_def)
  show ?thesis
    unfolding p using vm(2) a b c d e g st(1) reachable_empty_vm reachable_one_int by simp
qed

text \<open>
  C10. On a well-formed state with at least two stack entries and a collection due
  (\<open>numObjects = maxObjects\<close>), with a block that \<open>malloc\<close> may return, the collection
  that \<open>pushPair\<close>'s allocation runs (after its line is printed) finds the two operands
  on the stack: both are allocated in the state \<open>gc\<close> returns, as is
  every object reachable from the stack, with its type, value, head and tail unchanged.
  The new pair is a different object, its head and tail are the two operands, and no
  pointer of the resulting heap dangles.
\<close>

theorem pushPair_operands_survive_its_collection:
  assumes "wf_vm vm" and "malloc_ok vm a" and "2 \<le> stackSize vm"
    and "numObjects vm = maxObjects vm"
  shows "\<exists>vmg vm' x y ob. gc (printf ''Auto gc is ran\<newline>'' vm) = Inr vmg \<and>
           stack vm (stackSize vm - 2) = Some x \<and> stack vm (stackSize vm - 1) = Some y \<and>
           x \<in> fmdom' (heap vmg) \<and> y \<in> fmdom' (heap vmg) \<and>
           pushPair vm (Some (a, raw)) = Inr (vm', Some a) \<and> a \<noteq> x \<and> a \<noteq> y \<and>
           fmlookup (heap vm') a = Some ob \<and> head ob = Some x \<and> tail ob = Some y \<and>
           (\<forall>c oc. c \<in> roots_reach vm \<longrightarrow> fmlookup (heap vm) c = Some oc \<longrightarrow>
              (\<exists>oc'. fmlookup (heap vm') c = Some oc' \<and> same_payload oc oc')) \<and>
           x \<in> roots_reach vm \<and> y \<in> roots_reach vm \<and> closed (heap vm')"
proof -
  have "wf_vm (printf ''Auto gc is ran\<newline>'' vm)" using assms(1) by simp
  from gc_spec[OF this] obtain vmg
    where g: "gc (printf ''Auto gc is ran\<newline>'' vm) = Inr vmg" and wfg: "wf_vm vmg"
    and d: "fmdom' (heap vmg) = roots_reach vm"
    and pres: "\<forall>c oc. c \<in> roots_reach vm \<longrightarrow> fmlookup (heap vm) c = Some oc \<longrightarrow>
              (\<exists>oc'. fmlookup (heap vmg) c = Some oc' \<and> same_payload oc oc')"
    and st: "stack vmg = stack vm" "stackSize vmg = stackSize vm"
    unfolding roots_reach_printf printf_simps by blast
  have m: "at_malloc vm = Inr vmg" using assms(4) g by (simp add: at_malloc_def)
  have fresh: "a \<notin> fmdom' (heap vmg)" using assms(2) m by (rule malloc_okD)
  have roots: "valid (heap vm) (stack vm j)" if "j < stackSize vm" for j
    using assms(1) that by (simp add: wf_vm_def)
  from roots_in_reach[OF roots, of "stackSize vm - 2"] assms(3)
  obtain x where x: "stack vm (stackSize vm - 2) = Some x" "x \<in> roots_reach vm" by auto
  from roots_in_reach[OF roots, of "stackSize vm - 1"] assms(3)
  obtain y where y: "stack vm (stackSize vm - 1) = Some y" "y \<in> roots_reach vm" by auto
  have ne: "a \<noteq> x" "a \<noteq> y" using fresh x(2) y(2) d by auto
  have ge: "2 \<le> stackSize vmg" using assms(3) st by simp
  have sz: "stackSize vmg \<le> STACK_MAX" using wfg by (simp add: wf_vm_def)
  define ob where "ob = (cell vmg OBJ_PAIR raw)\<lparr> tail := Some y, head := Some x \<rparr>"
  define vm' where "vm' = linked vmg a ob
      \<lparr> stack := (stack vmg)(stackSize vmg - 2 := Some a), stackSize := stackSize vmg - 1 \<rparr>"
  have pp: "pushPair vm (Some (a, raw)) = Inr (vm', Some a)"
    using pushPair_eq[OF m ge sz, of a raw] x(1) y(1) by (simp add: vm'_def ob_def st)
  have la: "fmlookup (heap vm') a = Some ob"
    by (simp add: vm'_def linked_def)
  have keep: "\<exists>oc'. fmlookup (heap vm') c = Some oc' \<and> same_payload oc oc'"
    if "c \<in> roots_reach vm" "fmlookup (heap vm) c = Some oc" for c oc
  proof -
    from pres that obtain oc' where "fmlookup (heap vmg) c = Some oc'" "same_payload oc oc'"
      by blast
    moreover have "c \<noteq> a" using that(1) fresh d by auto
    ultimately show ?thesis by (auto simp: vm'_def linked_def)
  qed
  have "wf_vm vm'" using wf_pushPair[OF assms(1,2) pp] .
  then have cl: "closed (heap vm')" by (simp add: wf_vm_def)
  have hd_tl: "head ob = Some x" "tail ob = Some y" by (simp_all add: ob_def)
  show ?thesis
    using g x y d pp ne la hd_tl keep cl by auto
qed

theorem pushPair_operands_survive_its_collection_witness:
  "wf_vm due_vm \<and> malloc_ok due_vm 2 \<and> 2 \<le> stackSize due_vm \<and>
   numObjects due_vm = maxObjects due_vm \<and>
   gc (printf ''Auto gc is ran\<newline>'' due_vm) =
     Inr (printf ''Auto gc is ran\<newline>'' due_vm_collected) \<and>
   fmdom' (heap due_vm_collected) = {0, 1} \<and>
   (\<exists>vm' ob. pushPair due_vm (Some (2, junk)) = Inr (vm', Some 2) \<and>
      fmlookup (heap vm') 2 = Some ob \<and>
      head ob = Some 0 \<and> tail ob = Some 1 \<and> 0 \<in> fmdom' (heap vm') \<and> 1 \<in> fmdom' (heap vm') \<and>
      closed (heap vm'))"
proof -
  have ok: "malloc_ok due_vm 2" by (rule malloc_ok_due_vm)
  note g = gc_printf[of "''Auto gc is ran\<newline>''" due_vm, unfolded gc_due_vm, simplified]
  have s: "2 \<le> stackSize due_vm" "numObjects due_vm = maxObjects due_vm"
    "stack due_vm (stackSize due_vm - 2) = Some 0" "stack due_vm (stackSize due_vm - 1) = Some 1"
    by (simp_all add: due_vm_def)
  have d: "fmdom' (heap due_vm_collected) = {0, 1}" by (auto simp: due_vm_collected_def)
  have l: "fmlookup (heap due_vm) 0 = Some (int_cell None 5)"
    "fmlookup (heap due_vm) 1 = Some (int_cell (Some 0) 6)"
    by (simp_all add: due_vm_def)
  from pushPair_operands_survive_its_collection[OF wf_due_vm ok s(1,2), of junk]
  obtain vm' ob where r: "pushPair due_vm (Some (2, junk)) = Inr (vm', Some 2)"
    "fmlookup (heap vm') 2 = Some ob"
    "head ob = Some 0" "tail ob = Some 1" "closed (heap vm')"
    "0 \<in> roots_reach due_vm" "1 \<in> roots_reach due_vm"
    "\<forall>c oc. c \<in> roots_reach due_vm \<longrightarrow> fmlookup (heap due_vm) c = Some oc \<longrightarrow>
       (\<exists>oc'. fmlookup (heap vm') c = Some oc' \<and> same_payload oc oc')"
    unfolding s(3,4) by auto
  from r(6,7,8) l have "0 \<in> fmdom' (heap vm')" "1 \<in> fmdom' (heap vm')"
    by (auto simp: fmlookup_dom'_iff)
  with r wf_due_vm ok s d g show ?thesis by blast
qed

end
